theory Spec2Isabelle
  imports Main "HOL-Library.Word"
begin

unbundle bit_operations_syntax

section \<open>Rig listener: the radio protocol bridge of rig-listener.js\<close>

text \<open>
  A shallow embedding of \<^verbatim>\<open>rig-listener/rig-listener.js\<close>. JavaScript numbers
  that hold frequencies are modelled as natural numbers: every value the embedded
  code handles is a non-negative integer, and the arithmetic of the source is exact
  on them as long as they stay below \<open>2 ^ 53\<close>. A \<^verbatim>\<open>Buffer\<close> is a list of bytes.
\<close>

type_synonym byte = "8 word"

subsection \<open>Icom CI-V: the packed-decimal frequency field\<close>

text \<open>
  \<^verbatim>\<open>_bcdToFreq(data)\<close>: the \<^verbatim>\<open>for\<close> loop over \<open>i < Math.min(data.length, 5)\<close>,
  with the running \<open>freq\<close> and \<open>mult\<close>. Every read \<open>data[i]\<close> is guarded by the
  loop condition, so it is in range. \<open>lo_digit\<close> is \<open>data[i] & 0x0F\<close> and
  \<open>hi_digit\<close> is \<open>(data[i] >> 4) & 0x0F\<close>.
\<close>

definition lo_digit :: "byte \<Rightarrow> nat" where
  "lo_digit b = unat (b AND 0x0F)"

definition hi_digit :: "byte \<Rightarrow> nat" where
  "hi_digit b = unat (drop_bit 4 b AND 0x0F)"

function bcdToFreq_loop :: "byte list \<Rightarrow> nat \<Rightarrow> nat \<Rightarrow> nat \<Rightarrow> nat" where
  "bcdToFreq_loop data i freq mult =
     (if i < min (length data) 5 then
        let freq1 = freq + lo_digit (data ! i) * mult;
            mult1 = mult * 10;
            freq2 = freq1 + hi_digit (data ! i) * mult1;
            mult2 = mult1 * 10
        in bcdToFreq_loop data (i + 1) freq2 mult2
      else freq)"
  by pat_completeness auto
termination
  by (relation "measure (\<lambda>(data, i, freq, mult). min (length data) 5 - i)") auto

definition bcdToFreq :: "byte list \<Rightarrow> nat" where
  "bcdToFreq data = bcdToFreq_loop data 0 0 1"

text \<open>
  \<^verbatim>\<open>_freqToBcd(hz)\<close>: \<open>Buffer.alloc(5)\<close> is five zero bytes; \<open>Math.round\<close> is the
  identity on a natural number. \<open>f % 10\<close> and \<open>Math.floor(f / 10)\<close> are the remainder and
  the quotient for \<open>f\<close> below \<open>2 ^ 53\<close>; above, the division on doubles rounds and the
  source may differ from \<open>div\<close>. \<open>(hi << 4) | lo\<close> is computed on 32-bit integers and
  the store into the buffer keeps the low eight bits: \<open>pack_digits\<close>.
\<close>

definition pack_digits :: "nat \<Rightarrow> nat \<Rightarrow> byte" where
  "pack_digits hi lo = ucast ((push_bit 4 (of_nat hi :: 32 word)) OR of_nat lo)"

function freqToBcd_loop :: "nat \<Rightarrow> nat \<Rightarrow> byte list \<Rightarrow> byte list" where
  "freqToBcd_loop i f buf =
     (if i < 5 then
        let lo = f mod 10; f1 = f div 10;
            hi = f1 mod 10; f2 = f1 div 10
        in freqToBcd_loop (i + 1) f2 (buf[i := pack_digits hi lo])
      else buf)"
  by pat_completeness auto
termination
  by (relation "measure (\<lambda>(i, f, buf). 5 - i)") auto

definition freqToBcd :: "nat \<Rightarrow> byte list" where
  "freqToBcd hz = freqToBcd_loop 0 hz (replicate 5 0)"

subsection \<open>JavaScript strings\<close>

text \<open>
  A JavaScript string is a list of characters; a \<open>char\<close> stands for one code unit
  below 256, which covers the ASCII text of the CAT protocols. An index that the
  source reports as \<open>-1\<close> is \<open>None\<close>.
\<close>

fun indexOf :: "'a \<Rightarrow> 'a list \<Rightarrow> nat option" where
  "indexOf c [] = None"
| "indexOf c (x # xs) = (if x = c then Some 0 else map_option Suc (indexOf c xs))"

text \<open>\<open>s.substring(a, b)\<close>: both indices are clamped to the length and swapped if needed.\<close>

definition substring :: "string \<Rightarrow> nat \<Rightarrow> nat \<Rightarrow> string" where
  "substring s a b =
     (let a' = min a (length s); b' = min b (length s)
      in take (max a' b' - min a' b') (drop (min a' b') s))"

text \<open>\<open>s.substring(a)\<close>, to the end of the string.\<close>

definition substring_from :: "string \<Rightarrow> nat \<Rightarrow> string" where
  "substring_from s a = drop a s"

text \<open>\<open>s.charAt(i)\<close> is the empty string when \<open>i\<close> is out of range.\<close>

definition charAt :: "string \<Rightarrow> nat \<Rightarrow> string" where
  "charAt s i = (if i < length s then [s ! i] else [])"

definition startsWith :: "string \<Rightarrow> string \<Rightarrow> bool" where
  "startsWith s p = (take (length p) s = p)"

text \<open>\<open>s.padStart(n, c)\<close> for a one-character filler \<open>c\<close>.\<close>

definition padStart :: "string \<Rightarrow> nat \<Rightarrow> char \<Rightarrow> string" where
  "padStart s n c = replicate (n - length s) c @ s"

text \<open>
  \<open>String(n)\<close> for a natural number \<open>n\<close>: its decimal digits. This is what JavaScript
  prints for an integer that a number holds exactly, that is below \<open>2 ^ 53\<close>; from
  \<open>10 ^ 21\<close> on it prints an exponent instead. The properties of the encoders
  assume \<open>hz < 2 ^ 53\<close>.
\<close>

definition digitChar :: "nat \<Rightarrow> char" where
  "digitChar d = ''0123456789'' ! d"

function decimal :: "nat \<Rightarrow> string" where
  "decimal n = (if n < 10 then [digitChar n] else decimal (n div 10) @ [digitChar (n mod 10)])"
  by pat_completeness auto
termination
  by (relation "measure (\<lambda>n. n)") auto

text \<open>
  \<open>parseInt(s)\<close> with no radix, after ECMAScript: leading white space is skipped, a
  sign is read, a \<open>0x\<close> or \<open>0X\<close> prefix selects radix 16, and the longest prefix of
  digits is the value; no digit at all gives \<open>NaN\<close>, which is \<open>None\<close> here.
\<close>

definition isWhiteSpace :: "char \<Rightarrow> bool" where
  "isWhiteSpace c = ((of_char c :: nat) \<in> {9, 10, 11, 12, 13, 32, 160})"

definition digitValue :: "char \<Rightarrow> nat option" where
  "digitValue c =
     (let n = of_char c :: nat
      in if 48 \<le> n \<and> n \<le> 57 then Some (n - 48)
         else if 97 \<le> n \<and> n \<le> 122 then Some (n - 87)
         else if 65 \<le> n \<and> n \<le> 90 then Some (n - 55)
         else None)"

definition isRadixDigit :: "nat \<Rightarrow> char \<Rightarrow> bool" where
  "isRadixDigit R c = (case digitValue c of Some d \<Rightarrow> d < R | None \<Rightarrow> False)"

definition digitsValue :: "nat \<Rightarrow> string \<Rightarrow> nat" where
  "digitsValue R Z = foldl (\<lambda>a c. a * R + (case digitValue c of Some d \<Rightarrow> d | None \<Rightarrow> 0)) 0 Z"

definition parseInt :: "string \<Rightarrow> int option" where
  "parseInt s =
     (let S = dropWhile isWhiteSpace s;
          sign = (if take 1 S = ''-'' then - 1 else 1 :: int);
          S1 = (if take 1 S = ''-'' \<or> take 1 S = ''+'' then drop 1 S else S);
          hex = (take 2 S1 = ''0x'' \<or> take 2 S1 = ''0X'');
          R = (if hex then 16 else 10);
          S2 = (if hex then drop 2 S1 else S1);
          Z = takeWhile (isRadixDigit R) S2
      in if Z = [] then None else Some (sign * int (digitsValue R Z)))"

subsection \<open>Calls of \<open>updateState\<close>\<close>

text \<open>
  The codecs call \<open>updateState('freq', n)\<close>, \<open>updateState('mode', s)\<close> and
  \<open>updateState('ptt', b)\<close>, and nothing else. A decoder returns the calls it makes, in
  order; they are run against the state store further down.
\<close>

datatype upd = UFreq nat | UMode string | UPtt bool

text \<open>\<open>if (freq > 0) updateState('freq', freq)\<close> for a frequency read by \<open>parseInt\<close>.\<close>

definition freqUpdate :: "int option \<Rightarrow> upd list" where
  "freqUpdate f = (case f of None \<Rightarrow> [] | Some n \<Rightarrow> if n > 0 then [UFreq (nat n)] else [])"

text \<open>\<open>table[code] || code\<close>: the table entry unless it is missing or empty.\<close>

definition orElse :: "string option \<Rightarrow> string \<Rightarrow> string" where
  "orElse v d = (case v of None \<Rightarrow> d | Some x \<Rightarrow> if x = [] then d else x)"

subsection \<open>Yaesu CAT\<close>

definition YAESU_MODES :: "string \<Rightarrow> string option" where
  "YAESU_MODES = map_of
     [(''1'', ''LSB''), (''2'', ''USB''), (''3'', ''CW''), (''4'', ''FM''), (''5'', ''AM''),
      (''6'', ''RTTY-LSB''), (''7'', ''CW-R''), (''8'', ''DATA-LSB''), (''9'', ''RTTY-USB''),
      (''A'', ''DATA-FM''), (''B'', ''FM-N''), (''C'', ''DATA-USB''), (''D'', ''AM-N'')]"

text \<open>
  The \<open>while\<close> loop shared by both text codecs: cut the buffer at each \<open>;\<close>, push the
  command with its terminator, keep the rest.
\<close>

function splitCommands :: "string \<Rightarrow> string list \<Rightarrow> string list \<times> string" where
  "splitCommands buffer commands =
     (case indexOf (CHR '';'') buffer of
        None \<Rightarrow> (commands, buffer)
      | Some idx \<Rightarrow>
          splitCommands (substring_from buffer (idx + 1))
                        (commands @ [substring buffer 0 (idx + 1)]))"
  by pat_completeness auto
termination
proof (relation "measure (\<lambda>(buffer, commands). length buffer)")
  show "wf (measure (\<lambda>(buffer, commands). length buffer))" by simp
next
  fix buffer :: string and commands :: "string list" and idx
  assume "indexOf (CHR '';'') buffer = Some idx"
  then have "buffer \<noteq> []" by auto
  then show "((substring_from buffer (idx + 1), commands @ [substring buffer 0 (idx + 1)]),
              (buffer, commands)) \<in> measure (\<lambda>(buffer, commands). length buffer)"
    by (simp add: substring_from_def)
qed

definition yaesu_command :: "string \<Rightarrow> upd list" where
  "yaesu_command cmd =
     (if startsWith cmd ''FA'' \<and> length cmd \<ge> 11 then
        freqUpdate (parseInt (substring cmd 2 (length cmd - 1)))
      else if startsWith cmd ''MD0'' \<and> length cmd \<ge> 4 then
        [UMode (orElse (YAESU_MODES (charAt cmd 3)) (charAt cmd 3))]
      else if startsWith cmd ''TX'' \<and> length cmd \<ge> 3 then
        [UPtt (charAt cmd 2 \<noteq> ''0'')]
      else if startsWith cmd ''IF'' \<and> length cmd \<ge> 27 then
        freqUpdate (parseInt (substring cmd 5 14))
        @ (let mode = orElse (YAESU_MODES (charAt cmd 21)) (charAt cmd 21)
           in if mode \<noteq> [] then [UMode mode] else [])
      else [])"

text \<open>
  \<open>YaesuProtocol.parseResponse(chunk)\<close>: from the buffer and the chunk to the new
  buffer and the calls of \<open>updateState\<close>.
\<close>

definition yaesu_parseResponse :: "string \<Rightarrow> string \<Rightarrow> string \<times> upd list" where
  "yaesu_parseResponse buffer chunk =
     (case splitCommands (buffer @ chunk) [] of
        (commands, buffer') \<Rightarrow> (buffer', concat (map yaesu_command commands)))"

definition yaesu_setFreqCmd :: "nat \<Rightarrow> string" where
  "yaesu_setFreqCmd hz = ''FA'' @ padStart (decimal hz) 9 (CHR ''0'') @ '';''"

definition yaesu_setPttCmd :: "bool \<Rightarrow> string" where
  "yaesu_setPttCmd on = (if on then ''TX1;'' else ''TX0;'')"

subsection \<open>Kenwood and Elecraft CAT\<close>

definition KENWOOD_MODES :: "string \<Rightarrow> string option" where
  "KENWOOD_MODES = map_of
     [(''1'', ''LSB''), (''2'', ''USB''), (''3'', ''CW''), (''4'', ''FM''), (''5'', ''AM''),
      (''6'', ''FSK''), (''7'', ''CW-R''), (''9'', ''FSK-R'')]"

definition kenwood_command :: "string \<Rightarrow> upd list" where
  "kenwood_command cmd =
     (if startsWith cmd ''FA'' \<and> length cmd \<ge> 13 then
        freqUpdate (parseInt (substring cmd 2 (length cmd - 1)))
      else if startsWith cmd ''MD'' \<and> length cmd \<ge> 3 then
        [UMode (orElse (KENWOOD_MODES (charAt cmd 2)) (charAt cmd 2))]
      else if startsWith cmd ''TX'' \<and> length cmd \<ge> 3 then
        [UPtt (charAt cmd 2 \<noteq> ''0'')]
      else if startsWith cmd ''IF'' \<and> length cmd \<ge> 37 then
        freqUpdate (parseInt (substring cmd 2 13))
        @ (let mode = orElse (KENWOOD_MODES (charAt cmd 29)) (charAt cmd 29)
           in if mode \<noteq> [] then [UMode mode] else [])
      else [])"

definition kenwood_parseResponse :: "string \<Rightarrow> string \<Rightarrow> string \<times> upd list" where
  "kenwood_parseResponse buffer chunk =
     (case splitCommands (buffer @ chunk) [] of
        (commands, buffer') \<Rightarrow> (buffer', concat (map kenwood_command commands)))"

definition kenwood_setFreqCmd :: "nat \<Rightarrow> string" where
  "kenwood_setFreqCmd hz = ''FA'' @ padStart (decimal hz) 11 (CHR ''0'') @ '';''"

definition kenwood_setPttCmd :: "bool \<Rightarrow> string" where
  "kenwood_setPttCmd on = (if on then ''TX1;'' else ''RX;'')"

subsection \<open>Icom CI-V\<close>

definition ICOM_MODES :: "byte \<Rightarrow> string option" where
  "ICOM_MODES = map_of
     [(0x00, ''LSB''), (0x01, ''USB''), (0x02, ''AM''), (0x03, ''CW''), (0x04, ''RTTY''),
      (0x05, ''FM''), (0x06, ''WFM''), (0x07, ''CW-R''), (0x08, ''RTTY-R''),
      (0x17, ''DV'')]"

definition controllerAddr :: byte where
  "controllerAddr = 0xE0"

text \<open>\<open>b.toString(16)\<close> for a byte: one or two lower-case hexadecimal digits.\<close>

definition hexChar :: "nat \<Rightarrow> char" where
  "hexChar d = ''0123456789abcdef'' ! d"

definition toString16 :: "byte \<Rightarrow> string" where
  "toString16 b =
     (let n = unat b
      in if n < 16 then [hexChar n] else [hexChar (n div 16), hexChar (n mod 16)])"

text \<open>\<open>buf.subarray(a, b)\<close> on a buffer, for \<open>b\<close> within the length.\<close>

definition subarray :: "byte list \<Rightarrow> nat \<Rightarrow> nat \<Rightarrow> byte list" where
  "subarray buf a b = take (b - a) (drop a buf)"

text \<open>\<open>buf.indexOf(Buffer.from([a, b]))\<close>: the first place where \<open>a\<close>, \<open>b\<close> follow each other.\<close>

fun indexOfPair :: "'a \<Rightarrow> 'a \<Rightarrow> 'a list \<Rightarrow> nat option" where
  "indexOfPair a b (x # y # ys) =
     (if x = a \<and> y = b then Some 0 else map_option Suc (indexOfPair a b (y # ys)))"
| "indexOfPair a b _ = None"

text \<open>\<open>buf.indexOf(x, from)\<close>: the first place at or after \<open>from\<close>.\<close>

definition indexOfFrom :: "'a \<Rightarrow> 'a list \<Rightarrow> nat \<Rightarrow> nat option" where
  "indexOfFrom x xs k = map_option (\<lambda>i. i + k) (indexOf x (drop k xs))"

text \<open>
  \<open>_frame(payload)\<close>: preamble, the radio's address \<open>civAddr\<close>, the controller's address,
  the payload, the terminator.
\<close>

definition icom_frame :: "byte \<Rightarrow> byte list \<Rightarrow> byte list" where
  "icom_frame civAddr payload = [0xFE, 0xFE, civAddr, controllerAddr] @ payload @ [0xFD]"

text \<open>
  The body of the \<open>while (true)\<close> loop of \<open>IcomProtocol.parseResponse\<close> after a frame
  has been cut out of the buffer: the calls of \<open>updateState\<close> that the frame causes.
\<close>

definition icom_handleFrame :: "byte list \<Rightarrow> upd list" where
  "icom_handleFrame frame =
     (if length frame < 6 then []
      else if frame ! 2 \<noteq> controllerAddr then []
      else
        let cmd = frame ! 4;
            data = subarray frame 5 (length frame - 1)
        in if cmd = 0x03 \<or> cmd = 0x00 then
             (if length data \<ge> 5 then
                (if bcdToFreq data > 0 then [UFreq (bcdToFreq data)] else [])
              else [])
           else if cmd = 0x04 \<or> cmd = 0x01 then
             (if length data \<ge> 1 then
                [UMode (orElse (ICOM_MODES (data ! 0)) (''MODE_'' @ toString16 (data ! 0)))]
              else [])
           else if cmd = 0x1C then
             (if length data \<ge> 2 \<and> data ! 0 = 0x00 then [UPtt (data ! 1 = 0x01)] else [])
           else [])"

text \<open>
  The \<open>while (true)\<close> loop: the buffer and the calls made so far, to the buffer left
  when the loop returns and all the calls.
\<close>

function icom_loop :: "byte list \<Rightarrow> upd list \<Rightarrow> byte list \<times> upd list" where
  "icom_loop buffer calls =
     (case indexOfPair 0xFE 0xFE buffer of
        None \<Rightarrow> ([], calls)
      | Some start \<Rightarrow>
          (case indexOfFrom 0xFD buffer (start + 2) of
             None \<Rightarrow> (subarray buffer start (length buffer), calls)
           | Some endIdx \<Rightarrow>
               icom_loop (subarray buffer (endIdx + 1) (length buffer))
                         (calls @ icom_handleFrame (subarray buffer start (endIdx + 1)))))"
  by pat_completeness auto
termination
proof (relation "measure (\<lambda>(buffer, calls). length buffer)")
  show "wf (measure (\<lambda>(buffer, calls). length buffer))" by simp
next
  fix buffer :: "byte list" and calls :: "upd list" and start endIdx
  assume "indexOfPair 0xFE 0xFE buffer = Some start"
  then have "buffer \<noteq> []" by auto
  then show "((subarray buffer (endIdx + 1) (length buffer),
               calls @ icom_handleFrame (subarray buffer start (endIdx + 1))),
              (buffer, calls)) \<in> measure (\<lambda>(buffer, calls). length buffer)"
    by (simp add: subarray_def)
qed

definition icom_parseResponse :: "byte list \<Rightarrow> byte list \<Rightarrow> byte list \<times> upd list" where
  "icom_parseResponse buffer chunk = icom_loop (buffer @ chunk) []"

text \<open>
  The frames that the loop cuts from a buffer, in order: the two searches and the two
  cuts of \<open>icom_loop\<close>, keeping each \<open>frame\<close> instead of handling it. It is used to
  say which frames a call of \<open>updateState\<close> comes from.
\<close>

function icom_frames :: "byte list \<Rightarrow> byte list list" where
  "icom_frames buffer =
     (case indexOfPair 0xFE 0xFE buffer of
        None \<Rightarrow> []
      | Some start \<Rightarrow>
          (case indexOfFrom 0xFD buffer (start + 2) of
             None \<Rightarrow> []
           | Some endIdx \<Rightarrow>
               subarray buffer start (endIdx + 1)
               # icom_frames (subarray buffer (endIdx + 1) (length buffer))))"
  by pat_completeness auto
termination
proof (relation "measure length")
  show "wf (measure length)" by simp
next
  fix buffer :: "byte list" and start endIdx
  assume "indexOfPair 0xFE 0xFE buffer = Some start"
  then have "buffer \<noteq> []" by auto
  then show "(subarray buffer (endIdx + 1) (length buffer), buffer) \<in> measure length"
    by (simp add: subarray_def)
qed

definition icom_setFreqCmd :: "byte \<Rightarrow> nat \<Rightarrow> byte list" where
  "icom_setFreqCmd civAddr hz = icom_frame civAddr (0x05 # freqToBcd hz)"

definition icom_setPttCmd :: "byte \<Rightarrow> bool \<Rightarrow> byte list" where
  "icom_setPttCmd civAddr on = icom_frame civAddr [0x1C, 0x00, if on then 0x01 else 0x00]"

subsection \<open>The protocol objects\<close>

text \<open>
  \<open>protocol\<close> is one of four objects. What a codec hands to the serial port is a string
  (the text codecs) or a buffer (Icom); \<open>null\<close> is \<open>None\<close>.
\<close>

datatype brand = Yaesu | Kenwood | Icom | Mock

datatype wire = Text string | Binary "byte list"

fun setFreqCmd :: "brand \<Rightarrow> byte \<Rightarrow> nat \<Rightarrow> wire option" where
  "setFreqCmd Yaesu civAddr hz = Some (Text (yaesu_setFreqCmd hz))"
| "setFreqCmd Kenwood civAddr hz = Some (Text (kenwood_setFreqCmd hz))"
| "setFreqCmd Icom civAddr hz = Some (Binary (icom_setFreqCmd civAddr hz))"
| "setFreqCmd Mock civAddr hz = None"

fun setPttCmd :: "brand \<Rightarrow> byte \<Rightarrow> bool \<Rightarrow> wire option" where
  "setPttCmd Yaesu civAddr on = Some (Text (yaesu_setPttCmd on))"
| "setPttCmd Kenwood civAddr on = Some (Text (kenwood_setPttCmd on))"
| "setPttCmd Icom civAddr on = Some (Binary (icom_setPttCmd civAddr on))"
| "setPttCmd Mock civAddr on = None"

text \<open>\<open>if (cmd)\<close>: \<open>null\<close> and the empty string are falsy, a buffer is an object.\<close>

fun cmdTruthy :: "wire option \<Rightarrow> bool" where
  "cmdTruthy None = False"
| "cmdTruthy (Some (Text s)) = (s \<noteq> [])"
| "cmdTruthy (Some (Binary b)) = True"

subsection \<open>The radio state and the event stream\<close>

record radio_state =
  freq :: nat
  mode :: string
  width :: nat
  ptt :: bool
  connected :: bool
  lastUpdate :: nat

text \<open>
  What \<open>broadcast\<close> sends: \<open>{type: 'update', prop, value}\<close> for one of the three decoded
  fields or for \<open>connected\<close>.
\<close>

datatype event = Update upd | UpdateConnected bool

text \<open>
  A subscriber of \<open>/stream\<close>: what it has been sent, and whether \<open>c.write\<close> throws.
\<close>

record client =
  clientThrows :: bool
  inbox :: "event list"

text \<open>
  The serial port: open or not, whether \<open>write\<close> throws, and what has been written.
  \<open>pollTimer\<close> is the handle of \<open>setInterval\<close>; \<open>clearInterval\<close> makes it inactive.
  \<open>timeouts\<close> are the pending \<open>setTimeout(() => reconnect(cfg), delay)\<close> calls, each
  with its delay in milliseconds.
\<close>

record port =
  isOpen :: bool
  writeThrows :: bool
  written :: "wire list"

record timer =
  interval :: nat
  active :: bool

datatype callback = Reconnect

record world =
  state :: radio_state
  sseClients :: "client list"
  pttEnabled :: bool
  protocol :: brand
  civAddr :: byte
  yaesuBuffer :: string
  kenwoodBuffer :: string
  icomBuffer :: "byte list"
  serialPort :: "port option"
  pollTimer :: "timer option"
  timeouts :: "(nat \<times> callback) list"

text \<open>
  \<open>broadcast(data)\<close>: every client whose \<open>write\<close> succeeds receives the message and is
  kept; the others are dropped.
\<close>

definition broadcast :: "event \<Rightarrow> client list \<Rightarrow> client list" where
  "broadcast data cs =
     map (\<lambda>c. c\<lparr>inbox := inbox c @ [data]\<rparr>) (filter (\<lambda>c. \<not> clientThrows c) cs)"

text \<open>\<open>state[prop] === value\<close> and \<open>state[prop] = value\<close>, for the three calls.\<close>

fun stored :: "upd \<Rightarrow> radio_state \<Rightarrow> bool" where
  "stored (UFreq n) s = (freq s = n)"
| "stored (UMode m) s = (mode s = m)"
| "stored (UPtt b) s = (ptt s = b)"

fun assign :: "upd \<Rightarrow> radio_state \<Rightarrow> radio_state" where
  "assign (UFreq n) s = s\<lparr>freq := n\<rparr>"
| "assign (UMode m) s = s\<lparr>mode := m\<rparr>"
| "assign (UPtt b) s = s\<lparr>ptt := b\<rparr>"

text \<open>\<open>updateState(prop, value)\<close>; \<open>now\<close> is what \<open>Date.now()\<close> returns in this call.\<close>

definition updateState :: "nat \<Rightarrow> upd \<Rightarrow> world \<Rightarrow> world" where
  "updateState now u w =
     (if stored u (state w) then w
      else w\<lparr>state := (assign u (state w))\<lparr>lastUpdate := now\<rparr>,
             sseClients := broadcast (Update u) (sseClients w)\<rparr>)"

text \<open>
  Running the calls a decoder makes, in order; \<open>clock k\<close> is the reading of \<open>Date.now()\<close>
  in the \<open>k\<close>-th call.
\<close>

fun applyUpdates :: "(nat \<Rightarrow> nat) \<Rightarrow> nat \<Rightarrow> upd list \<Rightarrow> world \<Rightarrow> world" where
  "applyUpdates clock k [] w = w"
| "applyUpdates clock k (u # us) w = applyUpdates clock (Suc k) us (updateState (clock k) u w)"

text \<open>
  The \<open>'data'\<close> handler of the serial port, for each codec: the text codecs receive the
  decoded string, Icom the bytes.
\<close>

definition yaesu_onData :: "(nat \<Rightarrow> nat) \<Rightarrow> string \<Rightarrow> world \<Rightarrow> world" where
  "yaesu_onData clock chunk w =
     (case yaesu_parseResponse (yaesuBuffer w) chunk of
        (buffer', calls) \<Rightarrow> applyUpdates clock 0 calls (w\<lparr>yaesuBuffer := buffer'\<rparr>))"

definition kenwood_onData :: "(nat \<Rightarrow> nat) \<Rightarrow> string \<Rightarrow> world \<Rightarrow> world" where
  "kenwood_onData clock chunk w =
     (case kenwood_parseResponse (kenwoodBuffer w) chunk of
        (buffer', calls) \<Rightarrow> applyUpdates clock 0 calls (w\<lparr>kenwoodBuffer := buffer'\<rparr>))"

definition icom_onData :: "(nat \<Rightarrow> nat) \<Rightarrow> byte list \<Rightarrow> world \<Rightarrow> world" where
  "icom_onData clock chunk w =
     (case icom_parseResponse (icomBuffer w) chunk of
        (buffer', calls) \<Rightarrow> applyUpdates clock 0 calls (w\<lparr>icomBuffer := buffer'\<rparr>))"

subsection \<open>The serial engine\<close>

text \<open>\<open>sendToRadio(data)\<close>: the result and the world after it.\<close>

definition sendToRadio :: "wire \<Rightarrow> world \<Rightarrow> bool \<times> world" where
  "sendToRadio data w =
     (case serialPort w of
        None \<Rightarrow> (False, w)
      | Some p \<Rightarrow>
          if \<not> isOpen p then (False, w)
          else if writeThrows p then (False, w)
          else (True, w\<lparr>serialPort := Some (p\<lparr>written := written p @ [data]\<rparr>)\<rparr>))"

text \<open>
  The handlers that \<open>initSerial\<close> installs on the port. The library has already changed
  \<open>isOpen\<close> when it raises \<open>'open'\<close> or \<open>'close'\<close>; an \<open>'error'\<close> leaves the port as it is.
  \<open>onOpen\<close> takes \<open>cfg.radio.pollInterval || 500\<close>.
\<close>

definition setOpen :: "bool \<Rightarrow> world \<Rightarrow> world" where
  "setOpen b w = w\<lparr>serialPort := map_option (\<lambda>p. p\<lparr>isOpen := b\<rparr>) (serialPort w)\<rparr>"

definition onOpen :: "nat \<Rightarrow> world \<Rightarrow> world" where
  "onOpen pollInterval w =
     (setOpen True w)
       \<lparr>state := (state w)\<lparr>connected := True\<rparr>,
        sseClients := broadcast (UpdateConnected True) (sseClients w),
        pollTimer := Some \<lparr>interval = (if pollInterval = 0 then 500 else pollInterval),
                          active = True\<rparr>\<rparr>"

definition onError :: "world \<Rightarrow> world" where
  "onError w =
     w\<lparr>state := (state w)\<lparr>connected := False\<rparr>,
       sseClients := broadcast (UpdateConnected False) (sseClients w)\<rparr>"

definition onClose :: "world \<Rightarrow> world" where
  "onClose w =
     (setOpen False w)
       \<lparr>state := (state w)\<lparr>connected := False\<rparr>,
        sseClients := broadcast (UpdateConnected False) (sseClients w),
        pollTimer := map_option (\<lambda>t. t\<lparr>active := False\<rparr>) (pollTimer w),
        timeouts := timeouts w @ [(5000, Reconnect)]\<rparr>"

text \<open>The callback of \<open>serialPort.open\<close> when it is given an error.\<close>

definition onOpenFailed :: "world \<Rightarrow> world" where
  "onOpenFailed w = w\<lparr>timeouts := timeouts w @ [(5000, Reconnect)]\<rparr>"

text \<open>
  \<open>reconnect(cfg)\<close>: the old port is dropped and \<open>initSerial\<close> builds a new one, not yet
  open; whether it opens arrives later as \<open>'open'\<close> or as the callback's error.
\<close>

definition newPort :: port where
  "newPort = \<lparr>isOpen = False, writeThrows = False, written = []\<rparr>"

definition reconnect :: "world \<Rightarrow> world" where
  "reconnect w = w\<lparr>serialPort := Some newPort\<rparr>"

text \<open>
  The program when \<open>initSerial\<close> has chosen the protocol object of a radio (Yaesu,
  Kenwood or Icom) and built the port, before anything else has happened: the initial
  \<open>state\<close> of the source, no subscriber, empty buffers, the default CI-V address. (For
  the simulation, \<open>initSerial\<close> builds no port and seeds the state instead.)
\<close>

definition initialState :: radio_state where
  "initialState = \<lparr>freq = 0, mode = [], width = 0, ptt = False, connected = False, lastUpdate = 0\<rparr>"

definition initialWorld :: "brand \<Rightarrow> bool \<Rightarrow> world" where
  "initialWorld b pttOn =
     \<lparr>state = initialState, sseClients = [], pttEnabled = pttOn, protocol = b, civAddr = 0x94,
      yaesuBuffer = [], kenwoodBuffer = [], icomBuffer = [],
      serialPort = Some newPort, pollTimer = None, timeouts = []\<rparr>"

subsection \<open>The HTTP server\<close>

text \<open>
  A parsed request body. A JSON number is a natural number here (the documented input
  is a frequency in Hz). \<open>parseBody\<close> hands \<open>null\<close> to the handler when the body does
  not parse: \<open>JNull\<close> stands for both.
\<close>

datatype json = JNull | JBool bool | JNum nat | JStr string
  | JArr "json list" | JObj "(string \<times> json) list"

fun truthy :: "json \<Rightarrow> bool" where
  "truthy JNull = False"
| "truthy (JBool b) = b"
| "truthy (JNum n) = (n \<noteq> 0)"
| "truthy (JStr s) = (s \<noteq> [])"
| "truthy (JArr xs) = True"
| "truthy (JObj kvs) = True"

text \<open>
  \<open>body.key\<close> for \<open>key\<close> one of \<open>freq\<close>, \<open>mode\<close>, \<open>ptt\<close>: \<open>undefined\<close> is \<open>None\<close>; of a
  repeated key \<open>JSON.parse\<close> keeps the last; a value that is no object has no such
  property.
\<close>

fun property :: "json \<Rightarrow> string \<Rightarrow> json option" where
  "property (JObj kvs) key = map_of (rev kvs) key"
| "property v key = None"

definition truthyOpt :: "json option \<Rightarrow> bool" where
  "truthyOpt v = (case v of None \<Rightarrow> False | Some x \<Rightarrow> truthy x)"

record response =
  status :: nat
  payload :: json

text \<open>
  The handler of \<open>POST /freq\<close>. The result is \<open>None\<close> where \<open>body.freq\<close> is truthy and
  not a number: \<open>Math.round\<close> of such a value is outside this embedding.
\<close>

definition postFreq :: "json \<Rightarrow> world \<Rightarrow> (response \<times> world) option" where
  "postFreq body w =
     (if \<not> truthy body \<or> \<not> truthyOpt (property body ''freq'') then
        Some (\<lparr>status = 400, payload = JObj [(''error'', JStr ''Missing freq'')]\<rparr>, w)
      else
        (case property body ''freq'' of
           Some (JNum hz) \<Rightarrow>
             (let cmd = setFreqCmd (protocol w) (civAddr w) hz;
                  w' = (case cmd of
                          None \<Rightarrow> w
                        | Some c \<Rightarrow> if cmdTruthy cmd then snd (sendToRadio c w) else w)
              in Some (\<lparr>status = 200, payload = JObj [(''success'', JBool True)]\<rparr>, w'))
         | _ \<Rightarrow> None))"

text \<open>
  The handler of \<open>POST /ptt\<close>; \<open>body?.ptt\<close> is \<open>undefined\<close> for a \<open>null\<close> body. The
  log line before \<open>sendToRadio\<close> reads \<open>body.ptt\<close>, which throws for a \<open>null\<close> body;
  logging is not part of this embedding, so the handler is followed here for bodies
  other than \<open>null\<close>.
\<close>

definition postPtt :: "json \<Rightarrow> world \<Rightarrow> response \<times> world" where
  "postPtt body w =
     (let on = truthyOpt (property body ''ptt'')
      in if \<not> pttEnabled w \<and> on then
           (\<lparr>status = 403, payload = JObj [(''error'', JStr ''PTT disabled in configuration'')]\<rparr>, w)
         else
           (let cmd = setPttCmd (protocol w) (civAddr w) on;
                w' = (case cmd of
                        None \<Rightarrow> w
                      | Some c \<Rightarrow> if cmdTruthy cmd then snd (sendToRadio c w) else w)
            in (\<lparr>status = 200, payload = JObj [(''success'', JBool True)]\<rparr>, w')))"

text \<open>What has been written to the serial port so far.\<close>

definition writes :: "world \<Rightarrow> wire list" where
  "writes w = (case serialPort w of None \<Rightarrow> [] | Some p \<Rightarrow> written p)"

section \<open>Properties\<close>

subsection \<open>The packed-decimal field: encoding and decoding\<close>

lemma list_update_Cons_numeral:
  "(x # xs)[numeral k := y] = x # xs[pred_numeral k := y]"
  by (simp add: numeral_eq_Suc)

lemma replicate_five: "replicate 5 x = [x, x, x, x, x]"
  by (simp add: eval_nat_numeral)

lemma lo_digit_le: "lo_digit b \<le> 15"
proof -
  have "unat (b AND 15) \<le> unat (15 :: byte)"
    by (rule word_and_le1 [THEN word_le_nat_alt [THEN iffD1]])
  then show ?thesis by (simp add: lo_digit_def)
qed

lemma hi_digit_le: "hi_digit b \<le> 15"
proof -
  have "unat (drop_bit 4 b AND 15) \<le> unat (15 :: byte)"
    by (rule word_and_le1 [THEN word_le_nat_alt [THEN iffD1]])
  then show ?thesis by (simp add: hi_digit_def)
qed

text \<open>Two decimal digits packed into a byte are read back by the two nibble masks.\<close>

lemma digits_of_pack:
  assumes "hi < 10" "lo < 10"
  shows "lo_digit (pack_digits hi lo) = lo" "hi_digit (pack_digits hi lo) = hi"
proof -
  from assms have "hi \<in> {0,1,2,3,4,5,6,7,8,9}" "lo \<in> {0,1,2,3,4,5,6,7,8,9}" by auto
  then show "lo_digit (pack_digits hi lo) = lo" "hi_digit (pack_digits hi lo) = hi"
    by (auto simp: lo_digit_def hi_digit_def pack_digits_def)
qed

text \<open>The five iterations of the encoder, written out.\<close>

lemma freqToBcd_bytes:
  "freqToBcd f =
     [pack_digits (f div 10 mod 10) (f mod 10),
      pack_digits (f div 10 div 10 div 10 mod 10) (f div 10 div 10 mod 10),
      pack_digits (f div 10 div 10 div 10 div 10 div 10 mod 10) (f div 10 div 10 div 10 div 10 mod 10),
      pack_digits (f div 10 div 10 div 10 div 10 div 10 div 10 div 10 mod 10)
                  (f div 10 div 10 div 10 div 10 div 10 div 10 mod 10),
      pack_digits (f div 10 div 10 div 10 div 10 div 10 div 10 div 10 div 10 div 10 mod 10)
                  (f div 10 div 10 div 10 div 10 div 10 div 10 div 10 div 10 mod 10)]"
  unfolding freqToBcd_def replicate_five
  by (simp add: Let_def list_update_Cons_numeral del: div_mult2_eq)

text \<open>The decoder on five bytes, written out.\<close>

lemma bcdToFreq_five:
  "bcdToFreq [b0, b1, b2, b3, b4] =
     lo_digit b0 + hi_digit b0 * 10 + lo_digit b1 * 100 + hi_digit b1 * 1000
     + lo_digit b2 * 10000 + hi_digit b2 * 100000 + lo_digit b3 * 1000000
     + hi_digit b3 * 10000000 + lo_digit b4 * 100000000 + hi_digit b4 * 1000000000"
  by (simp add: bcdToFreq_def Let_def)

text \<open>A number below \<open>10 ^ 10\<close> is the sum of its ten decimal digits.\<close>

lemma decimal_expansion:
  fixes f :: nat
  assumes "f < 10000000000"
  shows "f mod 10 + (f div 10 mod 10) * 10 + (f div 10 div 10 mod 10) * 100
     + (f div 10 div 10 div 10 mod 10) * 1000
     + (f div 10 div 10 div 10 div 10 mod 10) * 10000
     + (f div 10 div 10 div 10 div 10 div 10 mod 10) * 100000
     + (f div 10 div 10 div 10 div 10 div 10 div 10 mod 10) * 1000000
     + (f div 10 div 10 div 10 div 10 div 10 div 10 div 10 mod 10) * 10000000
     + (f div 10 div 10 div 10 div 10 div 10 div 10 div 10 div 10 mod 10) * 100000000
     + (f div 10 div 10 div 10 div 10 div 10 div 10 div 10 div 10 div 10 mod 10) * 1000000000 = f"
proof -
  define q1 where "q1 = f div 10"
  define q2 where "q2 = q1 div 10"
  define q3 where "q3 = q2 div 10"
  define q4 where "q4 = q3 div 10"
  define q5 where "q5 = q4 div 10"
  define q6 where "q6 = q5 div 10"
  define q7 where "q7 = q6 div 10"
  define q8 where "q8 = q7 div 10"
  define q9 where "q9 = q8 div 10"
  define q10 where "q10 = q9 div 10"
  have e0: "f = f mod 10 + 10 * q1" by (simp add: q1_def)
  have e1: "q1 = q1 mod 10 + 10 * q2" by (simp add: q2_def)
  have e2: "q2 = q2 mod 10 + 10 * q3" by (simp add: q3_def)
  have e3: "q3 = q3 mod 10 + 10 * q4" by (simp add: q4_def)
  have e4: "q4 = q4 mod 10 + 10 * q5" by (simp add: q5_def)
  have e5: "q5 = q5 mod 10 + 10 * q6" by (simp add: q6_def)
  have e6: "q6 = q6 mod 10 + 10 * q7" by (simp add: q7_def)
  have e7: "q7 = q7 mod 10 + 10 * q8" by (simp add: q8_def)
  have e8: "q8 = q8 mod 10 + 10 * q9" by (simp add: q9_def)
  have e9: "q9 = q9 mod 10 + 10 * q10" by (simp add: q10_def)
  have z: "q10 = 0" using assms e0 e1 e2 e3 e4 e5 e6 e7 e8 e9 by linarith
  have "f mod 10 + (q1 mod 10) * 10 + (q2 mod 10) * 100 + (q3 mod 10) * 1000
     + (q4 mod 10) * 10000 + (q5 mod 10) * 100000 + (q6 mod 10) * 1000000
     + (q7 mod 10) * 10000000 + (q8 mod 10) * 100000000 + (q9 mod 10) * 1000000000 = f"
    using z e0 e1 e2 e3 e4 e5 e6 e7 e8 e9 by linarith
  then show ?thesis
    unfolding q1_def q2_def q3_def q4_def q5_def q6_def q7_def q8_def q9_def .
qed

lemma mod_ten_less: "(n::nat) mod 10 < 10"
  by simp

lemma bcdToFreq_freqToBcd:
  assumes "f < 10000000000"
  shows "bcdToFreq (freqToBcd f) = f"
  unfolding freqToBcd_bytes bcdToFreq_five digits_of_pack [OF mod_ten_less mod_ten_less]
  by (rule decimal_expansion [OF assms])

text \<open>
  The decoder's loop stays below a bound that depends only on where it starts: each
  nibble is at most 15, whatever the byte.
\<close>

lemma bcdToFreq_loop_bound:
  "i \<le> 5 \<Longrightarrow> bcdToFreq_loop data i fr m + 2 * m \<le> fr + 2 * (m * 100 ^ (5 - i))"
proof (induction data i fr m rule: bcdToFreq_loop.induct)
  case (1 data i fr m)
  show ?case
  proof (cases "i < min (length data) 5")
    case False
    have "m * 1 \<le> m * 100 ^ (5 - i)" by (rule mult_le_mono2) simp
    moreover have "bcdToFreq_loop data i fr m = fr"
      using False by (subst bcdToFreq_loop.simps) auto
    ultimately show ?thesis by simp
  next
    case True
    define fr' where "fr' = fr + lo_digit (data ! i) * m + hi_digit (data ! i) * (m * 10)"
    have step: "bcdToFreq_loop data i fr m = bcdToFreq_loop data (i + 1) fr' (m * 10 * 10)"
      using True by (subst bcdToFreq_loop.simps) (simp add: Let_def fr'_def del: bcdToFreq_loop.simps)
    have i5: "i + 1 \<le> 5" using True by simp
    have IH: "bcdToFreq_loop data (i + 1) fr' (m * 10 * 10) + 2 * (m * 10 * 10)
                \<le> fr' + 2 * (m * 10 * 10 * 100 ^ (5 - (i + 1)))"
      using "1.IH" [OF True refl refl refl refl i5] by (simp add: fr'_def)
    have "5 - i = Suc (5 - (i + 1))" using True by arith
    then have pw: "(100::nat) ^ (5 - i) = 100 * 100 ^ (5 - (i + 1))"
      by (simp only: power_Suc)
    have "lo_digit (data ! i) * m \<le> 15 * m"
      by (rule mult_le_mono1) (rule lo_digit_le)
    moreover have "hi_digit (data ! i) * (m * 10) \<le> 15 * (m * 10)"
      by (rule mult_le_mono1) (rule hi_digit_le)
    ultimately have fr'_le: "fr' \<le> fr + 165 * m" unfolding fr'_def by linarith
    define M where "M = m * 100 ^ (5 - (i + 1))"
    have "m * 10 * 10 * 100 ^ (5 - (i + 1)) = 100 * M" by (simp add: M_def)
    moreover have "m * 100 ^ (5 - i) = 100 * M" by (simp add: M_def pw)
    ultimately show ?thesis using IH fr'_le step by simp
  qed
qed

lemma bcdToFreq_bound: "bcdToFreq data < 20000000000"
  using bcdToFreq_loop_bound [of 0 data 0 1] by (simp add: bcdToFreq_def)

text \<open>
  Claim C1. For every natural number \<open>f\<close> up to 9,999,999,999, the largest value that
  five bytes of packed decimal hold, decoding the encoding of \<open>f\<close> gives \<open>f\<close> back.
  The decoder is a total function of its input: its loop terminates for every byte
  sequence, of any length and with any nibbles, every read is within the buffer, and
  the result is a natural number far below \<open>2 ^ 53\<close>, so that the arithmetic of the
  source is exact.
\<close>

theorem bcd_roundtrip_and_total:
  "(f \<le> 9999999999 \<longrightarrow> bcdToFreq (freqToBcd f) = f) \<and> bcdToFreq data < 2 ^ 53"
proof
  show "f \<le> 9999999999 \<longrightarrow> bcdToFreq (freqToBcd f) = f"
    by (simp add: bcdToFreq_freqToBcd)
  have "(20000000000::nat) < 2 ^ 53" by simp
  with bcdToFreq_bound [of data] show "bcdToFreq data < 2 ^ 53" by (rule less_trans)
qed

theorem bcd_roundtrip_and_total_witness:
  "(9999999999::nat) \<le> 9999999999
   \<and> bcdToFreq (freqToBcd 9999999999) = 9999999999
   \<and> bcdToFreq [0xFF, 0xFF, 0xFF, 0xFF, 0xFF, 0xFF] < 2 ^ 53"
  using bcd_roundtrip_and_total [of 9999999999 "[0xFF, 0xFF, 0xFF, 0xFF, 0xFF, 0xFF]"]
  by simp

subsection \<open>The state store\<close>

text \<open>The three commands of the scenario and the calls they make.\<close>

lemma yaesu_scenario_calls:
  "yaesu_parseResponse [] ''FA014074000;MD03;TX0;'' = ([], [UFreq 14074000, UMode ''CW'', UPtt False])"
proof -
  have split: "splitCommands ''FA014074000;MD03;TX0;'' [] = ([''FA014074000;'', ''MD03;'', ''TX0;''], [])"
    by (simp add: substring_def substring_from_def)
  have fa: "yaesu_command ''FA014074000;'' = [UFreq 14074000]"
    by (simp add: yaesu_command_def startsWith_def substring_def freqUpdate_def
        parseInt_def isWhiteSpace_def isRadixDigit_def digitValue_def digitsValue_def)
  have md: "yaesu_command ''MD03;'' = [UMode ''CW'']"
    by (simp add: yaesu_command_def startsWith_def charAt_def YAESU_MODES_def orElse_def)
  have tx: "yaesu_command ''TX0;'' = [UPtt False]"
    by (simp add: yaesu_command_def startsWith_def charAt_def)
  show ?thesis
    by (simp add: yaesu_parseResponse_def split fa md tx del: splitCommands.simps)
qed

text \<open>What one call of \<open>updateState\<close> leaves in the three decoded fields.\<close>

lemma state_updateState_freq [simp]:
  "freq (state (updateState now (UFreq n) w)) = n"
  "mode (state (updateState now (UFreq n) w)) = mode (state w)"
  "ptt (state (updateState now (UFreq n) w)) = ptt (state w)"
  by (simp_all add: updateState_def)

lemma state_updateState_mode [simp]:
  "freq (state (updateState now (UMode m) w)) = freq (state w)"
  "mode (state (updateState now (UMode m) w)) = m"
  "ptt (state (updateState now (UMode m) w)) = ptt (state w)"
  by (simp_all add: updateState_def)

lemma state_updateState_ptt [simp]:
  "freq (state (updateState now (UPtt b) w)) = freq (state w)"
  "mode (state (updateState now (UPtt b) w)) = mode (state w)"
  "ptt (state (updateState now (UPtt b) w)) = b"
  by (simp_all add: updateState_def)

text \<open>
  Claim C9. When the Yaesu codec, with an empty receive buffer, is given the string
  \<open>FA014074000;MD03;TX0;\<close>, the state afterwards has frequency 14,074,000 Hz, mode
  \<open>CW\<close> and PTT false, whatever the state was before and whatever the clock reads.
\<close>

theorem yaesu_scenario:
  assumes "yaesuBuffer w = []"
  shows "freq (state (yaesu_onData clock ''FA014074000;MD03;TX0;'' w)) = 14074000
       \<and> mode (state (yaesu_onData clock ''FA014074000;MD03;TX0;'' w)) = ''CW''
       \<and> ptt (state (yaesu_onData clock ''FA014074000;MD03;TX0;'' w)) = False"
  unfolding yaesu_onData_def assms yaesu_scenario_calls by simp

theorem yaesu_scenario_witness:
  "yaesuBuffer (initialWorld Yaesu False) = []
   \<and> freq (state (yaesu_onData (\<lambda>k. 1000 + k) ''FA014074000;MD03;TX0;'' (initialWorld Yaesu False))) = 14074000
   \<and> mode (state (yaesu_onData (\<lambda>k. 1000 + k) ''FA014074000;MD03;TX0;'' (initialWorld Yaesu False))) = ''CW''
   \<and> ptt (state (yaesu_onData (\<lambda>k. 1000 + k) ''FA014074000;MD03;TX0;'' (initialWorld Yaesu False))) = False"
proof -
  have h: "yaesuBuffer (initialWorld Yaesu False) = []" by (simp add: initialWorld_def)
  show ?thesis using h yaesu_scenario [OF h, of "\<lambda>k. 1000 + k"] by simp
qed

text \<open>
  Claim C5. A call of \<open>updateState\<close> with the value the field already holds returns
  the world as it was: no field, not the time of the last update, and no subscriber's
  inbox changes. A call with a different value stores it, sets the time of the last
  update and broadcasts one \<open>update\<close> event. So the world changes only when the value
  differs from the stored one, and repeating a call changes nothing more.
\<close>

theorem updateState_only_on_difference:
  "(stored u (state w) \<longrightarrow> updateState now u w = w)
   \<and> (\<not> stored u (state w) \<longrightarrow>
        stored u (state (updateState now u w))
        \<and> lastUpdate (state (updateState now u w)) = now
        \<and> sseClients (updateState now u w) = broadcast (Update u) (sseClients w))
   \<and> (updateState now u w \<noteq> w \<longrightarrow> \<not> stored u (state w))
   \<and> updateState later u (updateState now u w) = updateState now u w"
  by (cases u) (simp_all add: updateState_def)

theorem updateState_only_on_difference_witness:
  "stored (UFreq 0) (state (initialWorld Yaesu False))
   \<and> updateState 1000 (UFreq 0) (initialWorld Yaesu False) = initialWorld Yaesu False
   \<and> \<not> stored (UFreq 7074000) (state (initialWorld Yaesu False))
   \<and> stored (UFreq 7074000) (state (updateState 1000 (UFreq 7074000) (initialWorld Yaesu False)))
   \<and> lastUpdate (state (updateState 1000 (UFreq 7074000) (initialWorld Yaesu False))) = 1000
   \<and> updateState 1000 (UFreq 7074000) (initialWorld Yaesu False) \<noteq> initialWorld Yaesu False"
proof -
  have a: "stored (UFreq 0) (state (initialWorld Yaesu False))"
    by (simp add: initialWorld_def initialState_def)
  have b: "\<not> stored (UFreq 7074000) (state (initialWorld Yaesu False))"
    by (simp add: initialWorld_def initialState_def)
  have c: "updateState 1000 (UFreq 7074000) (initialWorld Yaesu False) \<noteq> initialWorld Yaesu False"
    using b updateState_only_on_difference [of "UFreq 7074000" "initialWorld Yaesu False" 1000]
    by (metis)
  show ?thesis
    using a b c updateState_only_on_difference [of "UFreq 0" "initialWorld Yaesu False" 1000]
      updateState_only_on_difference [of "UFreq 7074000" "initialWorld Yaesu False" 1000]
    by simp
qed

subsection \<open>The HTTP handlers\<close>

text \<open>
  Claim C10. A \<open>POST /freq\<close> whose body has a falsy \<open>freq\<close> (0, the empty string,
  \<open>false\<close>, \<open>null\<close>) or none at all is answered with status 400 and
  \<open>{error: 'Missing freq'}\<close>, and the world is returned unchanged: nothing is encoded
  and nothing is written to the port. A requested frequency of 0 Hz gets the answer of
  a body without \<open>freq\<close>.
\<close>

theorem postFreq_falsy_is_missing:
  "\<not> truthyOpt (property body ''freq'') \<longrightarrow>
     postFreq body w = Some (\<lparr>status = 400, payload = JObj [(''error'', JStr ''Missing freq'')]\<rparr>, w)"
  by (simp add: postFreq_def)

theorem postFreq_falsy_is_missing_witness:
  "\<not> truthyOpt (property (JObj [(''freq'', JNum 0)]) ''freq'')
   \<and> postFreq (JObj [(''freq'', JNum 0)]) (initialWorld Icom True)
       = Some (\<lparr>status = 400, payload = JObj [(''error'', JStr ''Missing freq'')]\<rparr>, initialWorld Icom True)
   \<and> postFreq (JObj [(''freq'', JNum 0)]) (initialWorld Icom True) = postFreq (JObj []) (initialWorld Icom True)"
proof -
  have h: "\<not> truthyOpt (property (JObj [(''freq'', JNum 0)]) ''freq'')" by (simp add: truthyOpt_def)
  have h': "\<not> truthyOpt (property (JObj []) ''freq'')" by (simp add: truthyOpt_def)
  show ?thesis
    using h h' postFreq_falsy_is_missing [of "JObj [(''freq'', JNum 0)]" "initialWorld Icom True"]
      postFreq_falsy_is_missing [of "JObj []" "initialWorld Icom True"]
    by simp
qed

subsection \<open>Icom frames for another address\<close>

lemma indexOf_append_last: "x \<notin> set xs \<Longrightarrow> indexOf x (xs @ [x]) = Some (length xs)"
  by (induction xs) auto

text \<open>One run of the loop on a buffer that holds exactly one frame for another address.\<close>

lemma icom_foreign_frame:
  assumes "to \<noteq> controllerAddr" "0xFD \<notin> set (to # from # body)"
  shows "icom_parseResponse [] ([0xFE, 0xFE, to, from] @ body @ [0xFD]) = ([], [])"
proof -
  let ?buf = "[0xFE, 0xFE, to, from] @ body @ [0xFD]"
  have pre: "indexOfPair 0xFE 0xFE ?buf = Some 0" by simp
  have "indexOf 0xFD ((to # from # body) @ [0xFD]) = Some (length (to # from # body))"
    using assms(2) by (rule indexOf_append_last)
  then have fd: "indexOfFrom 0xFD ?buf (0 + 2) = Some (length body + 4)"
    by (simp add: indexOfFrom_def)
  have frame: "subarray ?buf 0 (length body + 4 + 1) = ?buf" by (simp add: subarray_def)
  have rest: "subarray ?buf (length body + 4 + 1) (length ?buf) = []" by (simp add: subarray_def)
  have handle: "icom_handleFrame ?buf = []"
    using assms(1) by (simp add: icom_handleFrame_def)
  have "icom_loop ?buf [] = icom_loop [] ([] @ icom_handleFrame ?buf)"
    by (subst icom_loop.simps) (simp only: pre fd frame rest option.case)
  also have "\<dots> = ([], [])" using handle by simp
  finally show ?thesis by (simp add: icom_parseResponse_def del: icom_loop.simps)
qed

subsection \<open>A frequency of zero\<close>

lemma freqUpdate_no_zero: "UFreq 0 \<notin> set (freqUpdate f)"
  by (auto simp: freqUpdate_def split: option.splits)

lemma yaesu_command_no_zero: "UFreq 0 \<notin> set (yaesu_command cmd)"
  by (simp add: yaesu_command_def freqUpdate_no_zero Let_def)

lemma kenwood_command_no_zero: "UFreq 0 \<notin> set (kenwood_command cmd)"
  by (simp add: kenwood_command_def freqUpdate_no_zero Let_def)

lemma icom_handleFrame_no_zero: "UFreq 0 \<notin> set (icom_handleFrame frame)"
  by (auto simp: icom_handleFrame_def Let_def)

text \<open>The loop of the Icom decoder adds no call with frequency zero.\<close>

lemma icom_loop_no_zero:
  "UFreq 0 \<notin> set calls \<Longrightarrow> UFreq 0 \<notin> set (snd (icom_loop buffer calls))"
proof (induction buffer calls rule: icom_loop.induct)
  case (1 buffer calls)
  show ?case
  proof (cases "indexOfPair 0xFE 0xFE buffer")
    case None
    then show ?thesis using "1.prems" by (subst icom_loop.simps) simp
  next
    case (Some start)
    show ?thesis
    proof (cases "indexOfFrom 0xFD buffer (start + 2)")
      case None
      then show ?thesis using Some "1.prems" by (subst icom_loop.simps) simp
    next
      case (Some endIdx)
      have "UFreq 0 \<notin> set (calls @ icom_handleFrame (subarray buffer start (endIdx + 1)))"
        using "1.prems" icom_handleFrame_no_zero by simp
      then have "UFreq 0 \<notin> set (snd (icom_loop (subarray buffer (endIdx + 1) (length buffer))
                  (calls @ icom_handleFrame (subarray buffer start (endIdx + 1)))))"
        using "1.IH" \<open>indexOfPair 0xFE 0xFE buffer = Some start\<close> Some by blast
      then show ?thesis
        using \<open>indexOfPair 0xFE 0xFE buffer = Some start\<close> Some
        by (subst icom_loop.simps) (simp del: icom_loop.simps)
    qed
  qed
qed

text \<open>If running a list of calls changes the frequency, the new frequency is one of the calls.\<close>

lemma applyUpdates_freq:
  "freq (state (applyUpdates clock k us w)) \<noteq> freq (state w)
     \<Longrightarrow> UFreq (freq (state (applyUpdates clock k us w))) \<in> set us"
proof (induction us arbitrary: k w)
  case Nil
  then show ?case by simp
next
  case (Cons u us)
  let ?w' = "updateState (clock k) u w"
  let ?r = "applyUpdates clock (Suc k) us ?w'"
  show ?case
  proof (cases "freq (state ?r) = freq (state ?w')")
    case True
    with Cons.prems have "freq (state ?w') \<noteq> freq (state w)" by simp
    then have "u = UFreq (freq (state ?w'))" by (cases u) simp_all
    with True show ?thesis by simp
  next
    case False
    then have "UFreq (freq (state ?r)) \<in> set us" by (rule Cons.IH)
    then show ?thesis by simp
  qed
qed

lemma yaesu_parseResponse_no_zero: "UFreq 0 \<notin> set (snd (yaesu_parseResponse buffer chunk))"
  by (auto simp: yaesu_parseResponse_def yaesu_command_no_zero split: prod.splits)

lemma kenwood_parseResponse_no_zero: "UFreq 0 \<notin> set (snd (kenwood_parseResponse buffer chunk))"
  by (auto simp: kenwood_parseResponse_def kenwood_command_no_zero split: prod.splits)

lemma icom_parseResponse_no_zero: "UFreq 0 \<notin> set (snd (icom_parseResponse buffer chunk))"
  unfolding icom_parseResponse_def by (rule icom_loop_no_zero) simp

lemma applyUpdates_freq_positive:
  assumes "UFreq 0 \<notin> set us"
    and "freq (state (applyUpdates clock k us w)) \<noteq> freq (state w)"
  shows "0 < freq (state (applyUpdates clock k us w))"
proof -
  have "UFreq (freq (state (applyUpdates clock k us w))) \<in> set us"
    using assms(2) by (rule applyUpdates_freq)
  with assms(1) have "freq (state (applyUpdates clock k us w)) \<noteq> 0" by metis
  then show ?thesis by simp
qed

text \<open>
  Claim C4. No codec ever calls \<open>updateState('freq', 0)\<close>, whatever the buffer and the
  chunk: a frequency report that decodes to 0 makes no call for the frequency (running
  the calls of such a report returns the world unchanged). So whenever the \<open>data\<close>
  handler of a codec changes the stored frequency, the new value is positive.
\<close>

theorem zero_frequency_never_stored:
  "UFreq 0 \<notin> set (snd (yaesu_parseResponse buffer chunk))
   \<and> UFreq 0 \<notin> set (snd (kenwood_parseResponse buffer chunk))
   \<and> UFreq 0 \<notin> set (snd (icom_parseResponse bytes data))
   \<and> (freq (state (yaesu_onData clock chunk w)) \<noteq> freq (state w)
        \<longrightarrow> 0 < freq (state (yaesu_onData clock chunk w)))
   \<and> (freq (state (kenwood_onData clock chunk w)) \<noteq> freq (state w)
        \<longrightarrow> 0 < freq (state (kenwood_onData clock chunk w)))
   \<and> (freq (state (icom_onData clock data w)) \<noteq> freq (state w)
        \<longrightarrow> 0 < freq (state (icom_onData clock data w)))
   \<and> applyUpdates clock k (freqUpdate (Some 0)) w = w"
proof (intro conjI impI)
  show "UFreq 0 \<notin> set (snd (yaesu_parseResponse buffer chunk))"
    by (rule yaesu_parseResponse_no_zero)
  show "UFreq 0 \<notin> set (snd (kenwood_parseResponse buffer chunk))"
    by (rule kenwood_parseResponse_no_zero)
  show "UFreq 0 \<notin> set (snd (icom_parseResponse bytes data))"
    by (rule icom_parseResponse_no_zero)
  show "applyUpdates clock k (freqUpdate (Some 0)) w = w"
    by (simp add: freqUpdate_def)
next
  assume ch: "freq (state (yaesu_onData clock chunk w)) \<noteq> freq (state w)"
  obtain b us where p: "yaesu_parseResponse (yaesuBuffer w) chunk = (b, us)" by force
  have nz: "UFreq 0 \<notin> set us"
    using yaesu_parseResponse_no_zero [of "yaesuBuffer w" chunk] by (simp add: p)
  have r: "yaesu_onData clock chunk w = applyUpdates clock 0 us (w\<lparr>yaesuBuffer := b\<rparr>)"
    by (simp add: yaesu_onData_def p)
  have "0 < freq (state (applyUpdates clock 0 us (w\<lparr>yaesuBuffer := b\<rparr>)))"
    using nz ch unfolding r by (intro applyUpdates_freq_positive) simp_all
  then show "0 < freq (state (yaesu_onData clock chunk w))" by (simp only: r)
next
  assume ch: "freq (state (kenwood_onData clock chunk w)) \<noteq> freq (state w)"
  obtain b us where p: "kenwood_parseResponse (kenwoodBuffer w) chunk = (b, us)" by force
  have nz: "UFreq 0 \<notin> set us"
    using kenwood_parseResponse_no_zero [of "kenwoodBuffer w" chunk] by (simp add: p)
  have r: "kenwood_onData clock chunk w = applyUpdates clock 0 us (w\<lparr>kenwoodBuffer := b\<rparr>)"
    by (simp add: kenwood_onData_def p)
  have "0 < freq (state (applyUpdates clock 0 us (w\<lparr>kenwoodBuffer := b\<rparr>)))"
    using nz ch unfolding r by (intro applyUpdates_freq_positive) simp_all
  then show "0 < freq (state (kenwood_onData clock chunk w))" by (simp only: r)
next
  assume ch: "freq (state (icom_onData clock data w)) \<noteq> freq (state w)"
  obtain b us where p: "icom_parseResponse (icomBuffer w) data = (b, us)" by force
  have nz: "UFreq 0 \<notin> set us"
    using icom_parseResponse_no_zero [of "icomBuffer w" data] by (simp add: p)
  have r: "icom_onData clock data w = applyUpdates clock 0 us (w\<lparr>icomBuffer := b\<rparr>)"
    by (simp add: icom_onData_def p)
  have "0 < freq (state (applyUpdates clock 0 us (w\<lparr>icomBuffer := b\<rparr>)))"
    using nz ch unfolding r by (intro applyUpdates_freq_positive) simp_all
  then show "0 < freq (state (icom_onData clock data w))" by (simp only: r)
qed

text \<open>Reports with a frequency and with zero, for each codec.\<close>

lemma yaesu_FA_example:
  "yaesu_parseResponse [] ''FA014074000;'' = ([], [UFreq 14074000])"
  "yaesu_parseResponse [] ''FA000000000;'' = ([], [])"
  by (simp_all add: yaesu_parseResponse_def substring_def substring_from_def
      yaesu_command_def startsWith_def freqUpdate_def
      parseInt_def isWhiteSpace_def isRadixDigit_def digitValue_def digitsValue_def)

lemma kenwood_FA_example:
  "kenwood_parseResponse [] ''FA00014074000;'' = ([], [UFreq 14074000])"
  "kenwood_parseResponse [] ''FA00000000000;'' = ([], [])"
  by (simp_all add: kenwood_parseResponse_def substring_def substring_from_def
      kenwood_command_def startsWith_def freqUpdate_def
      parseInt_def isWhiteSpace_def isRadixDigit_def digitValue_def digitsValue_def)

lemma icom_freq_example:
  "icom_parseResponse [] [0xFE, 0xFE, 0xE0, 0x94, 0x03, 0x00, 0x40, 0x07, 0x14, 0x00, 0xFD]
     = ([], [UFreq 14074000])"
  "icom_parseResponse [] [0xFE, 0xFE, 0xE0, 0x94, 0x03, 0x00, 0x00, 0x00, 0x00, 0x00, 0xFD]
     = ([], [])"
  by (simp_all add: icom_parseResponse_def indexOfFrom_def subarray_def icom_handleFrame_def
      controllerAddr_def bcdToFreq_def lo_digit_def hi_digit_def Let_def)

theorem zero_frequency_never_stored_witness:
  "freq (state (yaesu_onData (\<lambda>k. 1000 + k) ''FA014074000;'' (initialWorld Yaesu False)))
      \<noteq> freq (state (initialWorld Yaesu False))
   \<and> 0 < freq (state (yaesu_onData (\<lambda>k. 1000 + k) ''FA014074000;'' (initialWorld Yaesu False)))
   \<and> freq (state (kenwood_onData (\<lambda>k. 1000 + k) ''FA00014074000;'' (initialWorld Kenwood False)))
      \<noteq> freq (state (initialWorld Kenwood False))
   \<and> 0 < freq (state (kenwood_onData (\<lambda>k. 1000 + k) ''FA00014074000;'' (initialWorld Kenwood False)))
   \<and> freq (state (icom_onData (\<lambda>k. 1000 + k)
          [0xFE, 0xFE, 0xE0, 0x94, 0x03, 0x00, 0x40, 0x07, 0x14, 0x00, 0xFD] (initialWorld Icom False)))
      \<noteq> freq (state (initialWorld Icom False))
   \<and> 0 < freq (state (icom_onData (\<lambda>k. 1000 + k)
          [0xFE, 0xFE, 0xE0, 0x94, 0x03, 0x00, 0x40, 0x07, 0x14, 0x00, 0xFD] (initialWorld Icom False)))
   \<and> yaesu_onData (\<lambda>k. 1000 + k) ''FA000000000;'' (initialWorld Yaesu False) = initialWorld Yaesu False
   \<and> kenwood_onData (\<lambda>k. 1000 + k) ''FA00000000000;'' (initialWorld Kenwood False)
        = initialWorld Kenwood False
   \<and> icom_onData (\<lambda>k. 1000 + k)
        [0xFE, 0xFE, 0xE0, 0x94, 0x03, 0x00, 0x00, 0x00, 0x00, 0x00, 0xFD] (initialWorld Icom False)
        = initialWorld Icom False"
proof -
  have y: "freq (state (yaesu_onData (\<lambda>k. 1000 + k) ''FA014074000;'' (initialWorld Yaesu False)))
      \<noteq> freq (state (initialWorld Yaesu False))"
    by (simp add: yaesu_onData_def initialWorld_def initialState_def yaesu_FA_example)
  have k: "freq (state (kenwood_onData (\<lambda>k. 1000 + k) ''FA00014074000;'' (initialWorld Kenwood False)))
      \<noteq> freq (state (initialWorld Kenwood False))"
    by (simp add: kenwood_onData_def initialWorld_def initialState_def kenwood_FA_example)
  have i: "freq (state (icom_onData (\<lambda>k. 1000 + k)
          [0xFE, 0xFE, 0xE0, 0x94, 0x03, 0x00, 0x40, 0x07, 0x14, 0x00, 0xFD] (initialWorld Icom False)))
      \<noteq> freq (state (initialWorld Icom False))"
    by (simp add: icom_onData_def initialWorld_def initialState_def icom_freq_example)
  have y0: "yaesu_onData (\<lambda>k. 1000 + k) ''FA000000000;'' (initialWorld Yaesu False)
      = initialWorld Yaesu False"
    by (simp add: yaesu_onData_def initialWorld_def yaesu_FA_example)
  have k0: "kenwood_onData (\<lambda>k. 1000 + k) ''FA00000000000;'' (initialWorld Kenwood False)
      = initialWorld Kenwood False"
    by (simp add: kenwood_onData_def initialWorld_def kenwood_FA_example)
  have i0: "icom_onData (\<lambda>k. 1000 + k)
        [0xFE, 0xFE, 0xE0, 0x94, 0x03, 0x00, 0x00, 0x00, 0x00, 0x00, 0xFD] (initialWorld Icom False)
        = initialWorld Icom False"
    by (simp add: icom_onData_def initialWorld_def icom_freq_example)
  from y k i y0 k0 i0
    zero_frequency_never_stored [of "[]" "''FA014074000;''" "[]" "[]" "\<lambda>k. 1000 + k" "initialWorld Yaesu False"]
    zero_frequency_never_stored [of "[]" "''FA00014074000;''" "[]" "[]" "\<lambda>k. 1000 + k" "initialWorld Kenwood False"]
    zero_frequency_never_stored [of "[]" "[]" "[]"
      "[0xFE, 0xFE, 0xE0, 0x94, 0x03, 0x00, 0x40, 0x07, 0x14, 0x00, 0xFD]" "\<lambda>k. 1000 + k" "initialWorld Icom False"]
  show ?thesis by blast
qed

subsection \<open>The PTT policy\<close>

text \<open>
  Claim C6 says that a \<open>POST /ptt\<close> with \<open>{ptt: true}\<close> while PTT is enabled performs
  exactly one write of the PTT-on command. That fails when the port is not open: with
  PTT enabled, the Yaesu codec and a port that has been built but is not open, the
  answer is 200 \<open>{success: true}\<close> and nothing is written, because \<open>sendToRadio\<close>
  returns \<open>false\<close> before it writes.
\<close>

theorem postPtt_closed_port_counterexample:
  "pttEnabled (initialWorld Yaesu True)
   \<and> fst (postPtt (JObj [(''ptt'', JBool True)]) (initialWorld Yaesu True))
       = \<lparr>status = 200, payload = JObj [(''success'', JBool True)]\<rparr>
   \<and> writes (snd (postPtt (JObj [(''ptt'', JBool True)]) (initialWorld Yaesu True))) = []"
  by (simp add: postPtt_def initialWorld_def newPort_def truthyOpt_def yaesu_setPttCmd_def
      sendToRadio_def writes_def)

text \<open>Every codec but the simulation has a PTT-on command, and it is truthy.\<close>

lemma setPttCmd_on:
  "b \<noteq> Mock \<Longrightarrow> \<exists>c. setPttCmd b a True = Some c \<and> cmdTruthy (Some c)"
  by (cases b) (simp_all add: yaesu_setPttCmd_def kenwood_setPttCmd_def)

text \<open>
  Claim C6, amended. For a \<open>POST /ptt\<close> whose body has a truthy \<open>ptt\<close>: while PTT is
  disabled in the configuration the answer is 403 with \<open>PTT disabled in configuration\<close>
  and the world is unchanged, so nothing is written. While PTT is enabled the answer
  is 200 \<open>{success: true}\<close>; if the codec is not the simulation and the port is open and
  its \<open>write\<close> does not throw, exactly one command is appended to what the port has
  been sent, the codec's PTT-on command; if the codec is the simulation, or there is no
  port, or the port is not open, or its \<open>write\<close> throws, the world is unchanged and
  nothing is written.
\<close>

theorem postPtt_policy:
  assumes "truthyOpt (property body ''ptt'')"
  shows "(\<not> pttEnabled w \<longrightarrow>
            postPtt body w =
              (\<lparr>status = 403, payload = JObj [(''error'', JStr ''PTT disabled in configuration'')]\<rparr>, w))
       \<and> (pttEnabled w \<longrightarrow>
            fst (postPtt body w) = \<lparr>status = 200, payload = JObj [(''success'', JBool True)]\<rparr>)
       \<and> (pttEnabled w \<and> protocol w \<noteq> Mock
            \<and> serialPort w = Some p \<and> isOpen p \<and> \<not> writeThrows p \<longrightarrow>
            (\<exists>c. setPttCmd (protocol w) (civAddr w) True = Some c
                 \<and> writes (snd (postPtt body w)) = writes w @ [c]))
       \<and> (pttEnabled w
            \<and> (protocol w = Mock \<or> serialPort w = None
                \<or> (\<exists>q. serialPort w = Some q \<and> (\<not> isOpen q \<or> writeThrows q))) \<longrightarrow>
            snd (postPtt body w) = w)"
proof (intro conjI impI)
  assume "\<not> pttEnabled w"
  then show "postPtt body w =
      (\<lparr>status = 403, payload = JObj [(''error'', JStr ''PTT disabled in configuration'')]\<rparr>, w)"
    using assms by (simp add: postPtt_def)
next
  assume "pttEnabled w"
  then show "fst (postPtt body w) = \<lparr>status = 200, payload = JObj [(''success'', JBool True)]\<rparr>"
    by (simp add: postPtt_def Let_def)
next
  assume a: "pttEnabled w \<and> protocol w \<noteq> Mock \<and> serialPort w = Some p \<and> isOpen p \<and> \<not> writeThrows p"
  then obtain c where c: "setPttCmd (protocol w) (civAddr w) True = Some c" "cmdTruthy (Some c)"
    using setPttCmd_on by blast
  have "writes (snd (postPtt body w)) = writes w @ [c]"
    using a c assms by (simp add: postPtt_def Let_def sendToRadio_def writes_def)
  with c(1) show "\<exists>c. setPttCmd (protocol w) (civAddr w) True = Some c
      \<and> writes (snd (postPtt body w)) = writes w @ [c]" by blast
next
  assume a: "pttEnabled w \<and> (protocol w = Mock \<or> serialPort w = None
      \<or> (\<exists>q. serialPort w = Some q \<and> (\<not> isOpen q \<or> writeThrows q)))"
  then show "snd (postPtt body w) = w"
    using assms by (auto simp: postPtt_def Let_def sendToRadio_def split: option.splits)
qed

theorem postPtt_policy_witness:
  "truthyOpt (property (JObj [(''ptt'', JBool True)]) ''ptt'')
   \<and> \<not> pttEnabled (initialWorld Yaesu False)
   \<and> postPtt (JObj [(''ptt'', JBool True)]) (initialWorld Yaesu False)
       = (\<lparr>status = 403, payload = JObj [(''error'', JStr ''PTT disabled in configuration'')]\<rparr>,
          initialWorld Yaesu False)
   \<and> pttEnabled (onOpen 500 (initialWorld Yaesu True))
   \<and> protocol (onOpen 500 (initialWorld Yaesu True)) \<noteq> Mock
   \<and> serialPort (onOpen 500 (initialWorld Yaesu True)) = Some (newPort\<lparr>isOpen := True\<rparr>)
   \<and> isOpen (newPort\<lparr>isOpen := True\<rparr>) \<and> \<not> writeThrows (newPort\<lparr>isOpen := True\<rparr>)
   \<and> fst (postPtt (JObj [(''ptt'', JBool True)]) (onOpen 500 (initialWorld Yaesu True)))
       = \<lparr>status = 200, payload = JObj [(''success'', JBool True)]\<rparr>
   \<and> writes (snd (postPtt (JObj [(''ptt'', JBool True)]) (onOpen 500 (initialWorld Yaesu True))))
       = writes (onOpen 500 (initialWorld Yaesu True)) @ [Text ''TX1;'']
   \<and> pttEnabled (initialWorld Yaesu True)
   \<and> serialPort (initialWorld Yaesu True) = Some newPort \<and> \<not> isOpen newPort
   \<and> snd (postPtt (JObj [(''ptt'', JBool True)]) (initialWorld Yaesu True)) = initialWorld Yaesu True"
proof -
  let ?B = "JObj [(''ptt'', JBool True)]"
  let ?W1 = "initialWorld Yaesu False"
  let ?W2 = "onOpen 500 (initialWorld Yaesu True)"
  let ?W3 = "initialWorld Yaesu True"
  let ?p = "newPort\<lparr>isOpen := True\<rparr>"
  have h: "truthyOpt (property ?B ''ptt'')" by (simp add: truthyOpt_def)
  have w1: "\<not> pttEnabled ?W1" by (simp add: initialWorld_def)
  have w2: "pttEnabled ?W2 \<and> protocol ?W2 \<noteq> Mock \<and> serialPort ?W2 = Some ?p
      \<and> isOpen ?p \<and> \<not> writeThrows ?p"
    by (simp add: onOpen_def setOpen_def initialWorld_def newPort_def)
  have w3: "pttEnabled ?W3 \<and> serialPort ?W3 = Some newPort \<and> \<not> isOpen newPort"
    by (simp add: initialWorld_def newPort_def)
  have tx: "setPttCmd (protocol ?W2) (civAddr ?W2) True = Some (Text ''TX1;'')"
    by (simp add: onOpen_def setOpen_def initialWorld_def yaesu_setPttCmd_def)
  note t1 = postPtt_policy [OF h, of ?W1 ?p]
  note t2 = postPtt_policy [OF h, of ?W2 ?p]
  note t3 = postPtt_policy [OF h, of ?W3 ?p]
  have r1: "postPtt ?B ?W1
       = (\<lparr>status = 403, payload = JObj [(''error'', JStr ''PTT disabled in configuration'')]\<rparr>, ?W1)"
    using t1 w1 by blast
  have r2a: "fst (postPtt ?B ?W2) = \<lparr>status = 200, payload = JObj [(''success'', JBool True)]\<rparr>"
    using t2 w2 by blast
  have "\<exists>c. setPttCmd (protocol ?W2) (civAddr ?W2) True = Some c
       \<and> writes (snd (postPtt ?B ?W2)) = writes ?W2 @ [c]"
    using t2 w2 by blast
  then have r2b: "writes (snd (postPtt ?B ?W2)) = writes ?W2 @ [Text ''TX1;'']"
    unfolding tx by simp
  have "\<exists>q. serialPort ?W3 = Some q \<and> (\<not> isOpen q \<or> writeThrows q)" using w3 by blast
  then have r3: "snd (postPtt ?B ?W3) = ?W3" using t3 w3 by blast
  show ?thesis using h w1 w2 w3 r1 r2a r2b r3 by blast
qed

subsection \<open>Losing the port\<close>

text \<open>
  What the two handlers do in any state: \<open>'error'\<close> leaves the timers and the port as
  they are, \<open>'close'\<close> schedules a reconnect; and a reconnect whose \<open>open\<close> fails
  schedules the next one.
\<close>

lemma onError_keeps_timers:
  "timeouts (onError w) = timeouts w"
  "pollTimer (onError w) = pollTimer w"
  "serialPort (onError w) = serialPort w"
  "\<not> connected (state (onError w))"
  "sseClients (onError w) = broadcast (UpdateConnected False) (sseClients w)"
  by (simp_all add: onError_def)

lemma onClose_schedules_reconnect:
  "timeouts (onClose w) = timeouts w @ [(5000, Reconnect)]"
  "\<not> connected (state (onClose w))"
  "sseClients (onClose w) = broadcast (UpdateConnected False) (sseClients w)"
  by (simp_all add: onClose_def setOpen_def)

lemma failed_open_schedules_reconnect:
  "timeouts (onOpenFailed (reconnect w)) = timeouts w @ [(5000, Reconnect)]"
  by (simp add: onOpenFailed_def reconnect_def)

text \<open>
  Claim C7, at the event that breaks it. After \<open>'open'\<close> the state is connected and the
  poll timer runs. An \<open>'error'\<close> event then marks the state disconnected and
  broadcasts it, but schedules no reconnect and leaves the poll timer running; the
  \<open>'close'\<close> handler, in the same state, stops the timer and schedules one reconnect
  with a delay of 5000 ms.
\<close>

theorem onError_schedules_no_reconnect:
  "connected (state (onOpen 500 (initialWorld Yaesu False)))
   \<and> \<not> connected (state (onError (onOpen 500 (initialWorld Yaesu False))))
   \<and> timeouts (onError (onOpen 500 (initialWorld Yaesu False))) = []
   \<and> pollTimer (onError (onOpen 500 (initialWorld Yaesu False))) = Some \<lparr>interval = 500, active = True\<rparr>
   \<and> timeouts (onClose (onOpen 500 (initialWorld Yaesu False))) = [(5000, Reconnect)]
   \<and> pollTimer (onClose (onOpen 500 (initialWorld Yaesu False))) = Some \<lparr>interval = 500, active = False\<rparr>"
  by (simp add: onError_def onClose_def onOpen_def setOpen_def initialWorld_def initialState_def)

subsection \<open>Delivery in two parts\<close>

lemma indexOf_less: "indexOf c s = Some i \<Longrightarrow> i < length s"
  by (induction s arbitrary: i) (auto split: if_splits)

lemma indexOf_append_left: "indexOf c a = Some i \<Longrightarrow> indexOf c (a @ b) = Some i"
  by (induction a arbitrary: i) (auto split: if_splits)

lemma indexOf_None: "indexOf c s = None \<longleftrightarrow> c \<notin> set s"
  by (induction s) auto

text \<open>The commands pushed so far do not influence how the rest of the buffer is cut.\<close>

lemma splitCommands_acc:
  "splitCommands s cs = (cs @ fst (splitCommands s []), snd (splitCommands s []))"
proof (induction "length s" arbitrary: s cs rule: less_induct)
  case less
  show ?case
  proof (cases "indexOf (CHR '';'') s")
    case None
    then show ?thesis by simp
  next
    case (Some idx)
    let ?rest = "substring_from s (idx + 1)"
    let ?cmd = "substring s 0 (idx + 1)"
    have "s \<noteq> []" using Some by auto
    then have shorter: "length ?rest < length s" by (simp add: substring_from_def)
    have a: "splitCommands s cs = splitCommands ?rest (cs @ [?cmd])"
      using Some by (subst splitCommands.simps) simp
    have b: "splitCommands s [] = splitCommands ?rest [?cmd]"
      using Some by (subst splitCommands.simps) simp
    have c: "splitCommands ?rest (cs @ [?cmd])
        = ((cs @ [?cmd]) @ fst (splitCommands ?rest []), snd (splitCommands ?rest []))"
      by (rule less [OF shorter])
    have d: "splitCommands ?rest [?cmd]
        = ([?cmd] @ fst (splitCommands ?rest []), snd (splitCommands ?rest []))"
      by (rule less [OF shorter])
    show ?thesis unfolding a b c d by simp
  qed
qed

text \<open>
  Cutting \<open>a @ b\<close> gives the commands of \<open>a\<close>, then the commands of what \<open>a\<close> left
  over followed by \<open>b\<close>.
\<close>

lemma splitCommands_append:
  "splitCommands (a @ b) [] =
     (fst (splitCommands a []) @ fst (splitCommands (snd (splitCommands a []) @ b) []),
      snd (splitCommands (snd (splitCommands a []) @ b) []))"
proof (induction "length a" arbitrary: a rule: less_induct)
  case less
  show ?case
  proof (cases "indexOf (CHR '';'') a")
    case None
    then have "splitCommands a [] = ([], a)" by simp
    then show ?thesis by (simp del: splitCommands.simps)
  next
    case (Some idx)
    let ?rest = "substring_from a (idx + 1)"
    let ?cmd = "substring a 0 (idx + 1)"
    have idx: "idx < length a" using Some by (rule indexOf_less)
    then have shorter: "length ?rest < length a" by (simp add: substring_from_def)
    have ab: "indexOf (CHR '';'') (a @ b) = Some idx" using Some by (rule indexOf_append_left)
    have rest_ab: "substring_from (a @ b) (idx + 1) = ?rest @ b"
      using idx by (simp add: substring_from_def)
    have cmd_ab: "substring (a @ b) 0 (idx + 1) = ?cmd"
      using idx by (simp add: substring_def min_def)
    have whole: "splitCommands (a @ b) [] = splitCommands (?rest @ b) [?cmd]"
      by (subst splitCommands.simps) (simp only: ab option.case rest_ab cmd_ab append_Nil)
    have first: "splitCommands a [] = splitCommands ?rest [?cmd]"
      using Some by (subst splitCommands.simps) simp
    have IH: "splitCommands (?rest @ b) [] =
       (fst (splitCommands ?rest []) @ fst (splitCommands (snd (splitCommands ?rest []) @ b) []),
        snd (splitCommands (snd (splitCommands ?rest []) @ b) []))"
      by (rule less [OF shorter])
    have f1: "splitCommands ?rest [?cmd]
        = ([?cmd] @ fst (splitCommands ?rest []), snd (splitCommands ?rest []))"
      by (rule splitCommands_acc)
    have f2: "splitCommands (?rest @ b) [?cmd]
        = ([?cmd] @ fst (splitCommands (?rest @ b) []), snd (splitCommands (?rest @ b) []))"
      by (rule splitCommands_acc)
    show ?thesis
      unfolding whole first f1 f2 fst_conv snd_conv
      by (subst (1 2) IH) (simp only: fst_conv snd_conv append_assoc)
  qed
qed

text \<open>
  The two text codecs decode a chunk delivered in two parts as they decode it whole:
  the same calls in the same order, and the same buffer afterwards.
\<close>

lemma yaesu_split_delivery:
  "yaesu_parseResponse buffer (a @ b) =
     (fst (yaesu_parseResponse (fst (yaesu_parseResponse buffer a)) b),
      snd (yaesu_parseResponse buffer a) @ snd (yaesu_parseResponse (fst (yaesu_parseResponse buffer a)) b))"
proof -
  have "splitCommands ((buffer @ a) @ b) [] =
     (fst (splitCommands (buffer @ a) []) @ fst (splitCommands (snd (splitCommands (buffer @ a) []) @ b) []),
      snd (splitCommands (snd (splitCommands (buffer @ a) []) @ b) []))"
    by (rule splitCommands_append)
  then show ?thesis
    by (simp add: yaesu_parseResponse_def case_prod_beta del: splitCommands.simps)
qed

lemma kenwood_split_delivery:
  "kenwood_parseResponse buffer (a @ b) =
     (fst (kenwood_parseResponse (fst (kenwood_parseResponse buffer a)) b),
      snd (kenwood_parseResponse buffer a) @ snd (kenwood_parseResponse (fst (kenwood_parseResponse buffer a)) b))"
proof -
  have "splitCommands ((buffer @ a) @ b) [] =
     (fst (splitCommands (buffer @ a) []) @ fst (splitCommands (snd (splitCommands (buffer @ a) []) @ b) []),
      snd (splitCommands (snd (splitCommands (buffer @ a) []) @ b) []))"
    by (rule splitCommands_append)
  then show ?thesis
    by (simp add: kenwood_parseResponse_def case_prod_beta del: splitCommands.simps)
qed

text \<open>
  The Icom decoder. First, how the two searches of its loop behave on a buffer that is
  extended at the end.
\<close>

lemma indexOf_append_right:
  "indexOf c x = None \<Longrightarrow> indexOf c (x @ b) = map_option (\<lambda>i. i + length x) (indexOf c b)"
  by (induction x) (auto simp: option.map_comp comp_def option.map_ident split: if_splits)

lemma indexOfPair_drop:
  "indexOfPair a c x = Some s \<Longrightarrow> \<exists>r. drop s x = a # c # r"
  by (induction a c x arbitrary: s rule: indexOfPair.induct) (auto split: if_splits)

lemma indexOfPair_append_left:
  "indexOfPair a c x = Some s \<Longrightarrow> indexOfPair a c (x @ b) = Some s"
  by (induction a c x arbitrary: s rule: indexOfPair.induct) (auto split: if_splits)

lemma indexOfPair_append_right:
  "indexOfPair a c x = None \<Longrightarrow> \<not> (x \<noteq> [] \<and> last x = a \<and> b \<noteq> [] \<and> hd b = c)
     \<Longrightarrow> indexOfPair a c (x @ b) = map_option (\<lambda>i. i + length x) (indexOfPair a c b)"
proof (induction x)
  case Nil
  then show ?case by (simp add: option.map_ident)
next
  case outer: (Cons u xs)
  show ?case
  proof (cases xs)
    case Nil
    with outer.prems show ?thesis by (cases b) (auto simp: option.map_comp comp_def)
  next
    case (Cons y ys)
    with outer.IH outer.prems show ?thesis
      by (auto simp: option.map_comp comp_def split: if_splits)
  qed
qed

lemma indexOfPair_Cons_Cons: "indexOfPair a c (a # c # r) = Some 0"
  by simp

lemma indexOfFrom_bounds: "indexOfFrom c x k = Some e \<Longrightarrow> k \<le> e \<and> e < length x"
  by (auto simp: indexOfFrom_def dest: indexOf_less)

lemma indexOfFrom_append_left:
  "indexOfFrom c x k = Some e \<Longrightarrow> indexOfFrom c (x @ b) k = Some e"
proof -
  assume a: "indexOfFrom c x k = Some e"
  then have "k \<le> length x" using indexOfFrom_bounds [OF a] by simp
  then have "drop k (x @ b) = drop k x @ b" by simp
  with a show ?thesis by (auto simp: indexOfFrom_def indexOf_append_left)
qed

lemma indexOfFrom_append_right:
  "k \<le> length x \<Longrightarrow> indexOfFrom c x k = None
     \<Longrightarrow> indexOfFrom c (x @ b) k = map_option (\<lambda>i. i + length x) (indexOf c b)"
  by (simp add: indexOfFrom_def indexOf_append_right option.map_comp comp_def)

text \<open>The three ways one round of the loop can go.\<close>

lemma icom_loop_None:
  "indexOfPair 0xFE 0xFE buffer = None \<Longrightarrow> icom_loop buffer calls = ([], calls)"
  by (subst icom_loop.simps) simp

lemma icom_loop_partial:
  "indexOfPair 0xFE 0xFE buffer = Some start \<Longrightarrow> indexOfFrom 0xFD buffer (start + 2) = None
     \<Longrightarrow> icom_loop buffer calls = (drop start buffer, calls)"
  by (subst icom_loop.simps) (simp add: subarray_def)

lemma icom_loop_frame:
  "indexOfPair 0xFE 0xFE buffer = Some start \<Longrightarrow> indexOfFrom 0xFD buffer (start + 2) = Some endIdx
     \<Longrightarrow> icom_loop buffer calls =
           icom_loop (drop (endIdx + 1) buffer)
                     (calls @ icom_handleFrame (take (endIdx + 1 - start) (drop start buffer)))"
  by (subst icom_loop.simps) (simp add: subarray_def del: icom_loop.simps)

lemma drop_append_length: "drop (length x + k) (x @ b) = drop k b"
  by simp

text \<open>
  A buffer without preamble can be dropped before the next chunk is appended, unless it
  ends with \<open>0xFE\<close> and the chunk starts with \<open>0xFE\<close>.
\<close>

lemma icom_loop_skip:
  assumes "indexOfPair 0xFE 0xFE x = None"
    and "\<not> (x \<noteq> [] \<and> last x = 0xFE \<and> b \<noteq> [] \<and> hd b = 0xFE)"
  shows "icom_loop (x @ b) calls = icom_loop b calls"
proof (cases "indexOfPair 0xFE 0xFE b")
  case None
  then have "indexOfPair 0xFE 0xFE (x @ b) = None"
    using indexOfPair_append_right [OF assms] by simp
  then show ?thesis using None by (simp add: icom_loop_None del: icom_loop.simps)
next
  case (Some s)
  then have p: "indexOfPair 0xFE 0xFE (x @ b) = Some (s + length x)"
    using indexOfPair_append_right [OF assms] by simp
  have d: "drop (s + length x + 2) (x @ b) = drop (s + 2) b" by simp
  show ?thesis
  proof (cases "indexOf 0xFD (drop (s + 2) b)")
    case None
    then have "indexOfFrom 0xFD (x @ b) (s + length x + 2) = None"
      "indexOfFrom 0xFD b (s + 2) = None"
      unfolding indexOfFrom_def d by simp_all
    then show ?thesis
      using p Some by (simp add: icom_loop_partial del: icom_loop.simps)
  next
    case (Some j)
    then have l: "indexOfFrom 0xFD (x @ b) (s + length x + 2) = Some (j + (s + length x + 2))"
      and r: "indexOfFrom 0xFD b (s + 2) = Some (j + (s + 2))"
      unfolding indexOfFrom_def d by simp_all
    have n1: "j + (s + length x + 2) + 1 = length x + (j + (s + 2) + 1)" by arith
    have n2: "j + (s + length x + 2) + 1 - (s + length x) = j + (s + 2) + 1 - s" by arith
    have f1: "drop (j + (s + length x + 2) + 1) (x @ b) = drop (j + (s + 2) + 1) b"
      unfolding n1 by (rule drop_append_length)
    have "drop (s + length x) (x @ b) = drop s b" by simp
    then have f2: "take (j + (s + length x + 2) + 1 - (s + length x)) (drop (s + length x) (x @ b))
            = take (j + (s + 2) + 1 - s) (drop s b)"
      by (simp only: n2)
    show ?thesis
      unfolding icom_loop_frame [OF p l] icom_loop_frame [OF \<open>indexOfPair 0xFE 0xFE b = Some s\<close> r]
        f1 f2 ..
  qed
qed

text \<open>An unfinished frame is continued by the next chunk.\<close>

lemma icom_loop_resume:
  assumes "indexOfPair 0xFE 0xFE x = Some start"
    and "indexOfFrom 0xFD x (start + 2) = None"
  shows "icom_loop (x @ b) calls = icom_loop (drop start x @ b) calls"
proof -
  obtain r where r: "drop start x = 0xFE # 0xFE # r"
    using indexOfPair_drop [OF assms(1)] by blast
  have "length (drop start x) = length r + 2" by (simp add: r)
  then have lenr: "length x = start + 2 + length r" by simp
  then have len: "start + 2 \<le> length x" by simp
  have p: "indexOfPair 0xFE 0xFE (x @ b) = Some start"
    using assms(1) by (rule indexOfPair_append_left)
  have p': "indexOfPair 0xFE 0xFE (drop start x @ b) = Some 0" by (simp add: r)
  have "drop 2 (drop start x) = r" by (simp add: r)
  then have dr: "drop (start + 2) x = r" by (simp add: add.commute)
  have noFD: "indexOf 0xFD r = None"
    using assms(2) unfolding indexOfFrom_def dr by simp
  have l: "indexOfFrom 0xFD (x @ b) (start + 2) = map_option (\<lambda>i. i + length x) (indexOf 0xFD b)"
    using len assms(2) by (rule indexOfFrom_append_right)
  have r': "indexOfFrom 0xFD (drop start x @ b) (0 + 2) = map_option (\<lambda>i. i + (length r + 2)) (indexOf 0xFD b)"
    using noFD by (simp add: r indexOfFrom_def indexOf_append_right option.map_comp comp_def)
  show ?thesis
  proof (cases "indexOf 0xFD b")
    case None
    have l0: "indexOfFrom 0xFD (x @ b) (start + 2) = None" using l None by simp
    have r0: "indexOfFrom 0xFD (drop start x @ b) (0 + 2) = None" using r' None by simp
    have e0: "drop start (x @ b) = drop start x @ b" using len by simp
    have "icom_loop (x @ b) calls = (drop start x @ b, calls)"
      unfolding icom_loop_partial [OF p l0] e0 ..
    moreover have "icom_loop (drop start x @ b) calls = (drop start x @ b, calls)"
      unfolding icom_loop_partial [OF p' r0] by simp
    ultimately show ?thesis by simp
  next
    case (Some j)
    have l2: "indexOfFrom 0xFD (x @ b) (start + 2) = Some (j + length x)" using l Some by simp
    have r2: "indexOfFrom 0xFD (drop start x @ b) (0 + 2) = Some (j + (length r + 2))"
      using r' Some by simp
    have e1: "drop (j + length x + 1) (x @ b) = drop (j + 1) b" by simp
    have e2: "drop (j + (length r + 2) + 1) (drop start x @ b) = drop (j + 1) b"
      by (simp add: r)
    have e3: "take (j + length x + 1 - start) (drop start (x @ b))
            = take (j + (length r + 2) + 1 - 0) (drop 0 (drop start x @ b))"
      using len by (simp add: lenr)
    show ?thesis
      unfolding icom_loop_frame [OF p l2] icom_loop_frame [OF p' r2] e1 e2 e3 ..
  qed
qed

text \<open>The calls made so far do not influence how the rest of the buffer is decoded.\<close>

lemma icom_loop_acc:
  "icom_loop y cs = (fst (icom_loop y []), cs @ snd (icom_loop y []))"
proof (induction "length y" arbitrary: y cs rule: less_induct)
  case less
  show ?case
  proof (cases "indexOfPair 0xFE 0xFE y")
    case None
    then show ?thesis by (simp add: icom_loop_None del: icom_loop.simps)
  next
    case (Some start)
    show ?thesis
    proof (cases "indexOfFrom 0xFD y (start + 2)")
      case None
      then show ?thesis using Some by (simp add: icom_loop_partial del: icom_loop.simps)
    next
      case e: (Some endIdx)
      let ?rest = "drop (endIdx + 1) y"
      let ?h = "icom_handleFrame (take (endIdx + 1 - start) (drop start y))"
      have "endIdx < length y" using indexOfFrom_bounds [OF e] by simp
      then have shorter: "length ?rest < length y" by simp
      have a: "icom_loop y cs = icom_loop ?rest (cs @ ?h)" using Some e by (rule icom_loop_frame)
      have b: "icom_loop y [] = icom_loop ?rest ([] @ ?h)" using Some e by (rule icom_loop_frame)
      have c: "icom_loop ?rest (cs @ ?h) = (fst (icom_loop ?rest []), (cs @ ?h) @ snd (icom_loop ?rest []))"
        by (rule less [OF shorter])
      have d: "icom_loop ?rest ([] @ ?h) = (fst (icom_loop ?rest []), ([] @ ?h) @ snd (icom_loop ?rest []))"
        by (rule less [OF shorter])
      show ?thesis unfolding a b c d by simp
    qed
  qed
qed

text \<open>
  Running the loop on \<open>x\<close> and then on what is left followed by \<open>b\<close> is running it
  on \<open>x @ b\<close>, unless \<open>x\<close> ends with \<open>0xFE\<close> and \<open>b\<close> starts with \<open>0xFE\<close>.
\<close>

lemma icom_loop_split:
  assumes "\<not> (x \<noteq> [] \<and> last x = 0xFE \<and> b \<noteq> [] \<and> hd b = 0xFE)"
  shows "icom_loop (x @ b) calls = icom_loop (fst (icom_loop x calls) @ b) (snd (icom_loop x calls))"
  using assms
proof (induction x calls rule: icom_loop.induct)
  case (1 buffer calls)
  show ?case
  proof (cases "indexOfPair 0xFE 0xFE buffer")
    case None
    have "icom_loop (buffer @ b) calls = icom_loop b calls"
      using None "1.prems" by (rule icom_loop_skip)
    then show ?thesis by (simp add: icom_loop_None [OF None] del: icom_loop.simps)
  next
    case (Some start)
    show ?thesis
    proof (cases "indexOfFrom 0xFD buffer (start + 2)")
      case None
      have "icom_loop (buffer @ b) calls = icom_loop (drop start buffer @ b) calls"
        using Some None by (rule icom_loop_resume)
      then show ?thesis by (simp add: icom_loop_partial [OF Some None] del: icom_loop.simps)
    next
      case e: (Some endIdx)
      let ?rest = "drop (endIdx + 1) buffer"
      let ?calls = "calls @ icom_handleFrame (take (endIdx + 1 - start) (drop start buffer))"
      have bounds: "start + 2 \<le> endIdx" "endIdx < length buffer"
        using indexOfFrom_bounds [OF e] by simp_all
      have step: "icom_loop buffer calls = icom_loop ?rest ?calls"
        using Some e by (rule icom_loop_frame)
      have p: "indexOfPair 0xFE 0xFE (buffer @ b) = Some start"
        using Some by (rule indexOfPair_append_left)
      have l: "indexOfFrom 0xFD (buffer @ b) (start + 2) = Some endIdx"
        using e by (rule indexOfFrom_append_left)
      have r1: "drop (endIdx + 1) (buffer @ b) = ?rest @ b" using bounds by simp
      have r2: "take (endIdx + 1 - start) (drop start (buffer @ b))
              = take (endIdx + 1 - start) (drop start buffer)" using bounds by simp
      have whole: "icom_loop (buffer @ b) calls = icom_loop (?rest @ b) ?calls"
        unfolding icom_loop_frame [OF p l] r1 r2 ..
      have last_rest: "?rest \<noteq> [] \<Longrightarrow> last ?rest = last buffer" by simp
      have safe: "\<not> (?rest \<noteq> [] \<and> last ?rest = 0xFE \<and> b \<noteq> [] \<and> hd b = 0xFE)"
        using "1.prems" last_rest by auto
      have s1: "subarray buffer (endIdx + 1) (length buffer) = ?rest" by (simp add: subarray_def)
      have s2: "subarray buffer start (endIdx + 1) = take (endIdx + 1 - start) (drop start buffer)"
        by (simp add: subarray_def)
      have IH: "icom_loop (?rest @ b) ?calls
          = icom_loop (fst (icom_loop ?rest ?calls) @ b) (snd (icom_loop ?rest ?calls))"
        using "1.IH" [OF Some e] safe unfolding s1 s2 by blast
      show ?thesis unfolding whole step by (rule IH)
    qed
  qed
qed

text \<open>
  So the Icom decoder decodes a chunk delivered in two parts as it decodes it whole,
  provided the cut does not fall between two bytes \<open>0xFE\<close>.
\<close>

lemma icom_split_delivery:
  assumes "\<not> (buffer @ a \<noteq> [] \<and> last (buffer @ a) = 0xFE \<and> b \<noteq> [] \<and> hd b = 0xFE)"
  shows "icom_parseResponse buffer (a @ b) =
     (fst (icom_parseResponse (fst (icom_parseResponse buffer a)) b),
      snd (icom_parseResponse buffer a) @ snd (icom_parseResponse (fst (icom_parseResponse buffer a)) b))"
proof -
  have acc: "\<And>y cs. icom_loop y cs = (fst (icom_loop y []), cs @ snd (icom_loop y []))"
    by (rule icom_loop_acc)
  have "icom_loop ((buffer @ a) @ b) [] =
      icom_loop (fst (icom_loop (buffer @ a) []) @ b) (snd (icom_loop (buffer @ a) []))"
    using assms by (rule icom_loop_split)
  also have "\<dots> = (fst (icom_loop (fst (icom_loop (buffer @ a) []) @ b) []),
      snd (icom_loop (buffer @ a) []) @ snd (icom_loop (fst (icom_loop (buffer @ a) []) @ b) []))"
    by (rule acc)
  finally show ?thesis by (simp add: icom_parseResponse_def del: icom_loop.simps)
qed

text \<open>
  Claim C3, at the input that breaks it. The Icom decoder, given a frequency report
  for 14,074,000 Hz in one chunk, calls \<open>updateState('freq', 14074000)\<close>. Given the
  same bytes in two chunks cut between the two preamble bytes, it makes no call at
  all: the first chunk holds no preamble, so the buffer is emptied and the lone \<open>0xFE\<close>
  is lost; the second chunk then starts with a single \<open>0xFE\<close> and holds no preamble
  either.
\<close>

theorem icom_split_in_preamble_loses_frame:
  "icom_parseResponse [] ([0xFE] @ [0xFE, 0xE0, 0x94, 0x03, 0x00, 0x40, 0x07, 0x14, 0x00, 0xFD])
     = ([], [UFreq 14074000])
   \<and> icom_parseResponse [] [0xFE] = ([], [])
   \<and> icom_parseResponse [] [0xFE, 0xE0, 0x94, 0x03, 0x00, 0x40, 0x07, 0x14, 0x00, 0xFD] = ([], [])"
  by (simp add: icom_parseResponse_def indexOfFrom_def subarray_def icom_handleFrame_def
      controllerAddr_def bcdToFreq_def lo_digit_def hi_digit_def Let_def)

subsection \<open>Encoding a frequency\<close>

text \<open>Decimal digits, as \<open>String\<close> prints them and as \<open>parseInt\<close> reads them.\<close>

lemma isRadixDigit_ten: "isRadixDigit 10 c \<longleftrightarrow> 48 \<le> (of_char c :: nat) \<and> (of_char c :: nat) \<le> 57"
  by (auto simp: isRadixDigit_def digitValue_def Let_def)

lemma digitValue_digitChar: "d < 10 \<Longrightarrow> digitValue (digitChar d) = Some d"
proof -
  assume "d < 10"
  then have "d \<in> {0,1,2,3,4,5,6,7,8,9}" by auto
  then show ?thesis by (auto simp: digitValue_def digitChar_def)
qed

lemma isRadixDigit_digitChar: "d < 10 \<Longrightarrow> isRadixDigit 10 (digitChar d)"
  by (simp add: isRadixDigit_def digitValue_digitChar)

lemma decimal_digits: "c \<in> set (decimal n) \<Longrightarrow> isRadixDigit 10 c"
proof (induction n rule: decimal.induct)
  case (1 n)
  show ?case
  proof (cases "n < 10")
    case True
    then have "decimal n = [digitChar n]" by (subst decimal.simps) (simp del: decimal.simps)
    with "1.prems" True show ?thesis by (simp add: isRadixDigit_digitChar del: decimal.simps)
  next
    case False
    have "decimal n = decimal (n div 10) @ [digitChar (n mod 10)]"
      using False by (subst decimal.simps) (simp del: decimal.simps)
    with "1.prems" have "c \<in> set (decimal (n div 10)) \<or> c = digitChar (n mod 10)"
      by (auto simp del: decimal.simps)
    then show ?thesis using "1.IH" [OF False] by (auto simp: isRadixDigit_digitChar simp del: decimal.simps)
  qed
qed

lemma decimal_nonempty: "decimal n \<noteq> []"
  by (subst decimal.simps) (simp del: decimal.simps)

lemma digitsValue_snoc:
  "digitsValue R (Z @ [c]) = digitsValue R Z * R + (case digitValue c of Some d \<Rightarrow> d | None \<Rightarrow> 0)"
  by (simp add: digitsValue_def)

lemma digitsValue_decimal: "digitsValue 10 (decimal n) = n"
proof (induction n rule: decimal.induct)
  case (1 n)
  show ?case
  proof (cases "n < 10")
    case True
    then have "decimal n = [digitChar n]" by (subst decimal.simps) (simp del: decimal.simps)
    then show ?thesis using True by (simp add: digitsValue_def digitValue_digitChar del: decimal.simps)
  next
    case False
    have "decimal n = decimal (n div 10) @ [digitChar (n mod 10)]"
      using False by (subst decimal.simps) (simp del: decimal.simps)
    then show ?thesis
      using "1.IH" [OF False] by (simp add: digitsValue_snoc digitValue_digitChar del: decimal.simps)
  qed
qed

lemma digitsValue_zeros: "digitsValue 10 (replicate k (CHR ''0'') @ s) = digitsValue 10 s"
proof -
  have "foldl (\<lambda>a c. a * 10 + (case digitValue c of Some d \<Rightarrow> d | None \<Rightarrow> 0)) 0 (replicate k (CHR ''0'')) = 0"
    by (induction k) (simp_all add: digitValue_def)
  then show ?thesis by (simp add: digitsValue_def)
qed

text \<open>\<open>parseInt\<close> on a non-empty string of decimal digits reads all of it in radix 10.\<close>

lemma parseInt_digits:
  assumes "s \<noteq> []" and "\<forall>c \<in> set s. isRadixDigit 10 c"
  shows "parseInt s = Some (int (digitsValue 10 s))"
proof -
  obtain c r where s: "s = c # r" using assms(1) by (cases s) auto
  have c: "48 \<le> (of_char c :: nat)" "(of_char c :: nat) \<le> 57"
    using assms(2) by (simp_all add: s isRadixDigit_ten)
  have nws: "\<not> isWhiteSpace c" using c by (auto simp: isWhiteSpace_def)
  have c1: "c \<noteq> CHR ''-''" "c \<noteq> CHR ''+''" using c by auto
  have nohex: "take 2 s \<noteq> ''0x''" "take 2 s \<noteq> ''0X''"
  proof -
    show "take 2 s \<noteq> ''0x''"
    proof
      assume "take 2 s = ''0x''"
      then have "CHR ''x'' \<in> set (take 2 s)" by simp
      then have "CHR ''x'' \<in> set s" by (rule in_set_takeD)
      with assms(2) have "isRadixDigit 10 (CHR ''x'')" by blast
      then show False by (simp add: isRadixDigit_ten)
    qed
    show "take 2 s \<noteq> ''0X''"
    proof
      assume "take 2 s = ''0X''"
      then have "CHR ''X'' \<in> set (take 2 s)" by simp
      then have "CHR ''X'' \<in> set s" by (rule in_set_takeD)
      with assms(2) have "isRadixDigit 10 (CHR ''X'')" by blast
      then show False by (simp add: isRadixDigit_ten)
    qed
  qed
  have dw: "dropWhile isWhiteSpace s = s" using nws by (simp add: s)
  have t1: "take 1 s \<noteq> ''-''" "take 1 s \<noteq> ''+''" using c1 by (simp_all add: s)
  have tw: "takeWhile (isRadixDigit 10) s = s" using assms(2) by (simp add: takeWhile_eq_all_conv)
  have "parseInt s = (if takeWhile (isRadixDigit 10) s = [] then None
                      else Some (1 * int (digitsValue 10 (takeWhile (isRadixDigit 10) s))))"
    unfolding parseInt_def Let_def dw using t1 nohex by (simp only: if_False simp_thms)
  then show ?thesis unfolding tw using assms(1) by simp
qed

lemma padStart_digits:
  "padStart (decimal n) k (CHR ''0'') \<noteq> []"
  "\<forall>c \<in> set (padStart (decimal n) k (CHR ''0'')). isRadixDigit 10 c"
  "digitsValue 10 (padStart (decimal n) k (CHR ''0'')) = n"
  "k \<le> length (padStart (decimal n) k (CHR ''0''))"
proof -
  show "padStart (decimal n) k (CHR ''0'') \<noteq> []"
    by (simp add: padStart_def decimal_nonempty del: decimal.simps)
  have "isRadixDigit 10 (CHR ''0'')" by (simp add: isRadixDigit_ten)
  then show "\<forall>c \<in> set (padStart (decimal n) k (CHR ''0'')). isRadixDigit 10 c"
    by (auto simp: padStart_def decimal_digits simp del: decimal.simps)
  show "digitsValue 10 (padStart (decimal n) k (CHR ''0'')) = n"
    unfolding padStart_def digitsValue_zeros by (rule digitsValue_decimal)
  show "k \<le> length (padStart (decimal n) k (CHR ''0''))"
    by (simp add: padStart_def del: decimal.simps)
qed

lemma parseInt_padStart: "parseInt (padStart (decimal n) k (CHR ''0'')) = Some (int n)"
  using parseInt_digits [OF padStart_digits(1) padStart_digits(2), of n k]
  by (simp only: padStart_digits(3))

lemma FA_frame:
  "startsWith (''FA'' @ pad @ '';'') ''FA''"
  "substring (''FA'' @ pad @ '';'') 2 (length (''FA'' @ pad @ '';'') - 1) = pad"
  by (simp_all add: startsWith_def substring_def)

text \<open>Each text codec reads back from its own \<open>FA\<close> command the frequency that was encoded.\<close>

lemma yaesu_setFreqCmd_decodes: "yaesu_command (yaesu_setFreqCmd hz) = freqUpdate (Some (int hz))"
proof -
  let ?pad = "padStart (decimal hz) 9 (CHR ''0'')"
  have len: "11 \<le> length (''FA'' @ ?pad @ '';'')"
    using padStart_digits(4) [of 9 hz] by (simp del: decimal.simps)
  show ?thesis
    unfolding yaesu_setFreqCmd_def yaesu_command_def
    by (simp only: FA_frame len parseInt_padStart simp_thms if_True)
qed

lemma kenwood_setFreqCmd_decodes: "kenwood_command (kenwood_setFreqCmd hz) = freqUpdate (Some (int hz))"
proof -
  let ?pad = "padStart (decimal hz) 11 (CHR ''0'')"
  have len: "13 \<le> length (''FA'' @ ?pad @ '';'')"
    using padStart_digits(4) [of 11 hz] by (simp del: decimal.simps)
  show ?thesis
    unfolding kenwood_setFreqCmd_def kenwood_command_def
    by (simp only: FA_frame len parseInt_padStart simp_thms if_True)
qed

text \<open>A number has at most \<open>k\<close> decimal digits exactly when it is below \<open>10 ^ k\<close>.\<close>

lemma length_decimal: "0 < k \<Longrightarrow> length (decimal n) \<le> k \<longleftrightarrow> n < 10 ^ k"
proof (induction n arbitrary: k rule: decimal.induct)
  case (1 n)
  show ?case
  proof (cases "n < 10")
    case True
    then have d: "decimal n = [digitChar n]" by (subst decimal.simps) (simp del: decimal.simps)
    have "(10::nat) ^ 1 \<le> 10 ^ k" using "1.prems" by (intro power_increasing) simp_all
    then have "n < 10 ^ k" using True by simp
    then show ?thesis using "1.prems" by (simp add: d del: decimal.simps)
  next
    case False
    have d: "decimal n = decimal (n div 10) @ [digitChar (n mod 10)]"
      using False by (subst decimal.simps) (simp del: decimal.simps)
    show ?thesis
    proof (cases "k = 1")
      case True
      have "decimal (n div 10) \<noteq> []" by (rule decimal_nonempty)
      then have "\<not> length (decimal n) \<le> 1" by (simp add: d del: decimal.simps)
      then show ?thesis using False True by simp
    next
      case k: False
      then obtain j where j: "k = Suc j" "0 < j" using "1.prems" by (cases k) auto
      have "length (decimal (n div 10)) \<le> j \<longleftrightarrow> n div 10 < 10 ^ j"
        using "1.IH" [OF False j(2)] .
      moreover have "n div 10 < 10 ^ j \<longleftrightarrow> n < 10 * 10 ^ j"
        by (simp add: div_less_iff_less_mult mult.commute)
      ultimately show ?thesis by (simp add: d j del: decimal.simps)
    qed
  qed
qed

lemma setFreqCmd_lengths:
  "length (yaesu_setFreqCmd hz) = 12 \<longleftrightarrow> hz < 10 ^ 9"
  "length (kenwood_setFreqCmd hz) = 14 \<longleftrightarrow> hz < 10 ^ 11"
proof -
  have "length (yaesu_setFreqCmd hz) = 12 \<longleftrightarrow> length (decimal hz) \<le> 9"
    by (auto simp: yaesu_setFreqCmd_def padStart_def simp del: decimal.simps)
  then show "length (yaesu_setFreqCmd hz) = 12 \<longleftrightarrow> hz < 10 ^ 9"
    using length_decimal [of 9 hz] by simp
  have "length (kenwood_setFreqCmd hz) = 14 \<longleftrightarrow> length (decimal hz) \<le> 11"
    by (auto simp: kenwood_setFreqCmd_def padStart_def simp del: decimal.simps)
  then show "length (kenwood_setFreqCmd hz) = 14 \<longleftrightarrow> hz < 10 ^ 11"
    using length_decimal [of 11 hz] by simp
qed

text \<open>The ten digits that the Icom encoder keeps are the number modulo \<open>10 ^ 10\<close>.\<close>

lemma decimal_expansion_mod:
  fixes f :: nat
  shows "f mod 10 + (f div 10 mod 10) * 10 + (f div 10 div 10 mod 10) * 100
     + (f div 10 div 10 div 10 mod 10) * 1000
     + (f div 10 div 10 div 10 div 10 mod 10) * 10000
     + (f div 10 div 10 div 10 div 10 div 10 mod 10) * 100000
     + (f div 10 div 10 div 10 div 10 div 10 div 10 mod 10) * 1000000
     + (f div 10 div 10 div 10 div 10 div 10 div 10 div 10 mod 10) * 10000000
     + (f div 10 div 10 div 10 div 10 div 10 div 10 div 10 div 10 mod 10) * 100000000
     + (f div 10 div 10 div 10 div 10 div 10 div 10 div 10 div 10 div 10 mod 10) * 1000000000
     = f mod 10000000000"
proof -
  define q1 where "q1 = f div 10"
  define q2 where "q2 = q1 div 10"
  define q3 where "q3 = q2 div 10"
  define q4 where "q4 = q3 div 10"
  define q5 where "q5 = q4 div 10"
  define q6 where "q6 = q5 div 10"
  define q7 where "q7 = q6 div 10"
  define q8 where "q8 = q7 div 10"
  define q9 where "q9 = q8 div 10"
  define q10 where "q10 = q9 div 10"
  define S where "S = f mod 10 + (q1 mod 10) * 10 + (q2 mod 10) * 100 + (q3 mod 10) * 1000
     + (q4 mod 10) * 10000 + (q5 mod 10) * 100000 + (q6 mod 10) * 1000000
     + (q7 mod 10) * 10000000 + (q8 mod 10) * 100000000 + (q9 mod 10) * 1000000000"
  have e0: "f = f mod 10 + 10 * q1" by (simp add: q1_def)
  have e1: "q1 = q1 mod 10 + 10 * q2" by (simp add: q2_def)
  have e2: "q2 = q2 mod 10 + 10 * q3" by (simp add: q3_def)
  have e3: "q3 = q3 mod 10 + 10 * q4" by (simp add: q4_def)
  have e4: "q4 = q4 mod 10 + 10 * q5" by (simp add: q5_def)
  have e5: "q5 = q5 mod 10 + 10 * q6" by (simp add: q6_def)
  have e6: "q6 = q6 mod 10 + 10 * q7" by (simp add: q7_def)
  have e7: "q7 = q7 mod 10 + 10 * q8" by (simp add: q8_def)
  have e8: "q8 = q8 mod 10 + 10 * q9" by (simp add: q9_def)
  have e9: "q9 = q9 mod 10 + 10 * q10" by (simp add: q10_def)
  have m: "f mod 10 < 10" "q1 mod 10 < 10" "q2 mod 10 < 10" "q3 mod 10 < 10" "q4 mod 10 < 10"
    "q5 mod 10 < 10" "q6 mod 10 < 10" "q7 mod 10 < 10" "q8 mod 10 < 10" "q9 mod 10 < 10"
    by simp_all
  have small: "S < 10000000000" unfolding S_def using m by linarith
  have whole: "f = S + 10000000000 * q10"
    unfolding S_def using e0 e1 e2 e3 e4 e5 e6 e7 e8 e9 by linarith
  have "f mod 10000000000 = S mod 10000000000" by (subst whole) simp
  also have "\<dots> = S" using small by simp
  finally have "S = f mod 10000000000" by simp
  then show ?thesis
    unfolding S_def q1_def q2_def q3_def q4_def q5_def q6_def q7_def q8_def q9_def .
qed

lemma bcdToFreq_freqToBcd_mod: "bcdToFreq (freqToBcd f) = f mod 10000000000"
  unfolding freqToBcd_bytes bcdToFreq_five digits_of_pack [OF mod_ten_less mod_ten_less]
  by (rule decimal_expansion_mod)

lemma length_freqToBcd: "length (freqToBcd f) = 5"
  by (simp only: freqToBcd_bytes list.size)

text \<open>
  Claim C2 says that \<open>setFreqCmd\<close> returns none for a frequency outside the range of
  the protocol. It returns a frame: Yaesu, with a field of nine digits, encodes
  \<open>10 ^ 9\<close> Hz as a command with ten digits; Kenwood, with eleven, encodes \<open>10 ^ 11\<close> Hz
  with twelve; Icom, with ten digits in five bytes, encodes \<open>10 ^ 10\<close> Hz as the frame
  for 0 Hz.
\<close>

theorem setFreqCmd_out_of_range_counterexample:
  "setFreqCmd Yaesu 0x94 1000000000 = Some (Text ''FA1000000000;'')
   \<and> setFreqCmd Kenwood 0x94 100000000000 = Some (Text ''FA100000000000;'')
   \<and> setFreqCmd Icom 0x94 10000000000
       = Some (Binary [0xFE, 0xFE, 0x94, 0xE0, 0x05, 0x00, 0x00, 0x00, 0x00, 0x00, 0xFD])
   \<and> setFreqCmd Icom 0x94 10000000000 = setFreqCmd Icom 0x94 0"
proof (intro conjI)
  show "setFreqCmd Yaesu 0x94 1000000000 = Some (Text ''FA1000000000;'')"
    by (simp add: yaesu_setFreqCmd_def padStart_def digitChar_def)
  show "setFreqCmd Kenwood 0x94 100000000000 = Some (Text ''FA100000000000;'')"
    by (simp add: kenwood_setFreqCmd_def padStart_def digitChar_def)
  have big: "freqToBcd 10000000000 = [0, 0, 0, 0, 0]"
    unfolding freqToBcd_bytes by (simp add: pack_digits_def)
  have zero: "freqToBcd 0 = [0, 0, 0, 0, 0]"
    unfolding freqToBcd_bytes by (simp add: pack_digits_def)
  show "setFreqCmd Icom 0x94 10000000000
       = Some (Binary [0xFE, 0xFE, 0x94, 0xE0, 0x05, 0x00, 0x00, 0x00, 0x00, 0x00, 0xFD])"
    by (simp add: icom_setFreqCmd_def icom_frame_def controllerAddr_def big)
  show "setFreqCmd Icom 0x94 10000000000 = setFreqCmd Icom 0x94 0"
    by (simp add: icom_setFreqCmd_def big zero)
qed

text \<open>
  Claim C2, amended. For the Yaesu, Kenwood and Icom codecs and every natural number
  \<open>hz\<close> below \<open>2 ^ 53\<close> (the integers that a JavaScript number holds exactly), in the
  range of the protocol or not, \<open>setFreqCmd\<close> returns a frame, never none. The text
  codecs do not truncate: the codec decodes its own command back to \<open>hz\<close> (to no call
  for \<open>hz = 0\<close>), and the command has the fixed width, 12 characters for Yaesu and 14
  for Kenwood, exactly when \<open>hz\<close> is below \<open>10 ^ 9\<close> and \<open>10 ^ 11\<close>; otherwise it is
  longer. The Icom frame always carries five bytes of packed decimal, which decode to
  \<open>hz mod 10 ^ 10\<close>.
\<close>

theorem setFreqCmd_always_a_frame:
  assumes "hz < 2 ^ 53"
  shows "setFreqCmd Yaesu a hz = Some (Text (yaesu_setFreqCmd hz))
   \<and> setFreqCmd Kenwood a hz = Some (Text (kenwood_setFreqCmd hz))
   \<and> setFreqCmd Icom a hz = Some (Binary (icom_frame a (0x05 # freqToBcd hz)))
   \<and> yaesu_command (yaesu_setFreqCmd hz) = (if 0 < hz then [UFreq hz] else [])
   \<and> kenwood_command (kenwood_setFreqCmd hz) = (if 0 < hz then [UFreq hz] else [])
   \<and> (length (yaesu_setFreqCmd hz) = 12 \<longleftrightarrow> hz < 10 ^ 9)
   \<and> (length (kenwood_setFreqCmd hz) = 14 \<longleftrightarrow> hz < 10 ^ 11)
   \<and> length (freqToBcd hz) = 5
   \<and> bcdToFreq (freqToBcd hz) = hz mod 10 ^ 10"
proof (intro conjI)
  show "setFreqCmd Yaesu a hz = Some (Text (yaesu_setFreqCmd hz))" by simp
  show "setFreqCmd Kenwood a hz = Some (Text (kenwood_setFreqCmd hz))" by simp
  show "setFreqCmd Icom a hz = Some (Binary (icom_frame a (0x05 # freqToBcd hz)))"
    by (simp add: icom_setFreqCmd_def)
  show "yaesu_command (yaesu_setFreqCmd hz) = (if 0 < hz then [UFreq hz] else [])"
    by (simp add: yaesu_setFreqCmd_decodes freqUpdate_def)
  show "kenwood_command (kenwood_setFreqCmd hz) = (if 0 < hz then [UFreq hz] else [])"
    by (simp add: kenwood_setFreqCmd_decodes freqUpdate_def)
  show "length (yaesu_setFreqCmd hz) = 12 \<longleftrightarrow> hz < 10 ^ 9" by (rule setFreqCmd_lengths)
  show "length (kenwood_setFreqCmd hz) = 14 \<longleftrightarrow> hz < 10 ^ 11" by (rule setFreqCmd_lengths)
  show "length (freqToBcd hz) = 5" by (rule length_freqToBcd)
  show "bcdToFreq (freqToBcd hz) = hz mod 10 ^ 10" by (simp add: bcdToFreq_freqToBcd_mod)
qed

theorem setFreqCmd_always_a_frame_witness:
  "(100000000000 :: nat) < 2 ^ 53
   \<and> setFreqCmd Yaesu 0x94 100000000000 = Some (Text (yaesu_setFreqCmd 100000000000))
   \<and> setFreqCmd Kenwood 0x94 100000000000 = Some (Text (kenwood_setFreqCmd 100000000000))
   \<and> setFreqCmd Icom 0x94 100000000000 = Some (Binary (icom_frame 0x94 (0x05 # freqToBcd 100000000000)))
   \<and> yaesu_command (yaesu_setFreqCmd 100000000000) = [UFreq 100000000000]
   \<and> kenwood_command (kenwood_setFreqCmd 100000000000) = [UFreq 100000000000]
   \<and> length (yaesu_setFreqCmd 100000000000) \<noteq> 12
   \<and> length (kenwood_setFreqCmd 100000000000) \<noteq> 14
   \<and> length (freqToBcd 100000000000) = 5
   \<and> bcdToFreq (freqToBcd 100000000000) = 0"
proof -
  have h: "(100000000000 :: nat) < 2 ^ 53" by simp
  show ?thesis using h setFreqCmd_always_a_frame [OF h, of "0x94"] by simp
qed

subsection \<open>Which frames cause a call\<close>

declare icom_frames.simps [simp del] icom_loop.simps [simp del]

lemma indexOf_nth: "indexOf c s = Some i \<Longrightarrow> s ! i = c"
  by (induction s arbitrary: i) (auto split: if_splits)

text \<open>One round of \<open>icom_frames\<close>, as for \<open>icom_loop\<close>.\<close>

lemma icom_frames_None:
  "indexOfPair 0xFE 0xFE buffer = None \<Longrightarrow> icom_frames buffer = []"
  by (subst icom_frames.simps) simp

lemma icom_frames_partial:
  "indexOfPair 0xFE 0xFE buffer = Some start \<Longrightarrow> indexOfFrom 0xFD buffer (start + 2) = None
     \<Longrightarrow> icom_frames buffer = []"
  by (subst icom_frames.simps) simp

lemma icom_frames_frame:
  "indexOfPair 0xFE 0xFE buffer = Some start \<Longrightarrow> indexOfFrom 0xFD buffer (start + 2) = Some endIdx
     \<Longrightarrow> icom_frames buffer =
           take (endIdx + 1 - start) (drop start buffer) # icom_frames (drop (endIdx + 1) buffer)"
  by (subst icom_frames.simps) (simp add: subarray_def del: icom_frames.simps)

text \<open>
  The calls of the loop are the calls of the frames it cuts, in order, whatever the
  buffer is.
\<close>

lemma icom_loop_frames:
  "icom_loop buffer calls =
     (fst (icom_loop buffer []), calls @ concat (map icom_handleFrame (icom_frames buffer)))"
proof (induction "length buffer" arbitrary: buffer calls rule: less_induct)
  case less
  show ?case
  proof (cases "indexOfPair 0xFE 0xFE buffer")
    case None
    then show ?thesis
      by (simp add: icom_loop_None icom_frames_None del: icom_loop.simps icom_frames.simps)
  next
    case (Some start)
    show ?thesis
    proof (cases "indexOfFrom 0xFD buffer (start + 2)")
      case None
      then show ?thesis
        using Some
        by (simp add: icom_loop_partial icom_frames_partial del: icom_loop.simps icom_frames.simps)
    next
      case e: (Some endIdx)
      let ?rest = "drop (endIdx + 1) buffer"
      let ?frame = "take (endIdx + 1 - start) (drop start buffer)"
      have "endIdx < length buffer" using indexOfFrom_bounds [OF e] by simp
      then have shorter: "length ?rest < length buffer" by simp
      have a: "icom_loop buffer calls = icom_loop ?rest (calls @ icom_handleFrame ?frame)"
        using Some e by (rule icom_loop_frame)
      have b: "icom_loop buffer [] = icom_loop ?rest ([] @ icom_handleFrame ?frame)"
        using Some e by (rule icom_loop_frame)
      have f: "icom_frames buffer = ?frame # icom_frames ?rest"
        using Some e by (rule icom_frames_frame)
      have c: "icom_loop ?rest (calls @ icom_handleFrame ?frame)
          = (fst (icom_loop ?rest []),
             (calls @ icom_handleFrame ?frame) @ concat (map icom_handleFrame (icom_frames ?rest)))"
        by (rule less [OF shorter])
      have d: "icom_loop ?rest ([] @ icom_handleFrame ?frame)
          = (fst (icom_loop ?rest []),
             ([] @ icom_handleFrame ?frame) @ concat (map icom_handleFrame (icom_frames ?rest)))"
        by (rule less [OF shorter])
      show ?thesis unfolding a b c d f by simp
    qed
  qed
qed

text \<open>Every frame that is cut starts with the preamble and ends with the terminator.\<close>

lemma icom_frames_shape:
  "f \<in> set (icom_frames buffer) \<Longrightarrow> take 2 f = [0xFE, 0xFE] \<and> last f = 0xFD \<and> 3 \<le> length f"
proof (induction "length buffer" arbitrary: buffer rule: less_induct)
  case less
  show ?case
  proof (cases "indexOfPair 0xFE 0xFE buffer")
    case None
    with less.prems show ?thesis by (simp add: icom_frames_None del: icom_frames.simps)
  next
    case (Some start)
    show ?thesis
    proof (cases "indexOfFrom 0xFD buffer (start + 2)")
      case None
      with less.prems Some show ?thesis by (simp add: icom_frames_partial del: icom_frames.simps)
    next
      case e: (Some endIdx)
      let ?rest = "drop (endIdx + 1) buffer"
      let ?frame = "take (endIdx + 1 - start) (drop start buffer)"
      have bounds: "start + 2 \<le> endIdx" "endIdx < length buffer"
        using indexOfFrom_bounds [OF e] by simp_all
      then have shorter: "length ?rest < length buffer" by simp
      have f: "icom_frames buffer = ?frame # icom_frames ?rest"
        using Some e by (rule icom_frames_frame)
      obtain r where r: "drop start buffer = 0xFE # 0xFE # r"
        using indexOfPair_drop [OF Some] by blast
      have fdat: "buffer ! endIdx = 0xFD"
      proof -
        obtain j where j: "indexOf 0xFD (drop (start + 2) buffer) = Some j" "endIdx = j + (start + 2)"
          using e by (auto simp: indexOfFrom_def)
        have "drop (start + 2) buffer ! j = 0xFD" using j(1) by (rule indexOf_nth)
        moreover have "start + 2 + j \<le> length buffer" using bounds j(2) by simp
        ultimately show ?thesis using j(2) by (simp add: add.commute)
      qed
      have len: "length ?frame = endIdx + 1 - start" using bounds by simp
      have pre: "take 2 ?frame = [0xFE, 0xFE]"
      proof -
        have "2 \<le> endIdx + 1 - start" using bounds by simp
        then have "take 2 ?frame = take 2 (drop start buffer)" by (simp add: min_def)
        then show ?thesis by (simp add: r)
      qed
      have lst: "last ?frame = 0xFD"
      proof -
        have ne: "?frame \<noteq> []" using len bounds by auto
        have "last ?frame = ?frame ! (length ?frame - 1)" using ne by (rule last_conv_nth)
        also have "\<dots> = ?frame ! (endIdx - start)" using len bounds by simp
        also have "\<dots> = drop start buffer ! (endIdx - start)" using bounds by simp
        also have "\<dots> = buffer ! endIdx" using bounds by simp
        finally show ?thesis using fdat by simp
      qed
      from less.prems f have "f = ?frame \<or> f \<in> set (icom_frames ?rest)"
        by (simp del: icom_frames.simps)
      then show ?thesis
      proof
        assume "f = ?frame"
        then show ?thesis using pre lst len bounds by simp
      next
        assume "f \<in> set (icom_frames ?rest)"
        then show ?thesis by (rule less.hyps [OF shorter])
      qed
    qed
  qed
qed

text \<open>A buffer that is one complete frame is cut into that frame.\<close>

lemma icom_frames_single:
  assumes "0xFD \<notin> set (to # from # body)"
  shows "icom_frames ([0xFE, 0xFE, to, from] @ body @ [0xFD]) = [[0xFE, 0xFE, to, from] @ body @ [0xFD]]"
proof -
  let ?buf = "[0xFE, 0xFE, to, from] @ body @ [0xFD]"
  have pre: "indexOfPair 0xFE 0xFE ?buf = Some 0" by simp
  have "indexOf 0xFD ((to # from # body) @ [0xFD]) = Some (length (to # from # body))"
    using assms by (rule indexOf_append_last)
  then have fd: "indexOfFrom 0xFD ?buf (0 + 2) = Some (length body + 4)"
    by (simp add: indexOfFrom_def)
  have frame: "take (length body + 4 + 1 - 0) (drop 0 ?buf) = ?buf" by simp
  have rest: "drop (length body + 4 + 1) ?buf = []" by simp
  have "icom_frames [] = []" by (rule icom_frames_None) simp
  then show ?thesis
    unfolding icom_frames_frame [OF pre fd] frame rest by simp
qed

text \<open>
  Claim C8 says that decoding a complete frame for another address never updates the
  state. That fails when an unfinished frame is pending: with \<open>FE FE E0 94 03\<close> in the
  buffer (a report for the controller, cut off after its command byte), the complete
  frame \<open>FE FE 94 E0 03 FD\<close>, addressed to \<open>0x94\<close>, is not cut as a frame of its own. Its
  bytes up to the terminator become the five data bytes of the pending report, and
  \<open>updateState('freq', 440956564)\<close> is called.
\<close>

theorem icom_foreign_frame_after_partial_counterexample:
  "(0x94 :: byte) \<noteq> controllerAddr
   \<and> icom_parseResponse [] [0xFE, 0xFE, 0xE0, 0x94, 0x03] = ([0xFE, 0xFE, 0xE0, 0x94, 0x03], [])
   \<and> icom_parseResponse [0xFE, 0xFE, 0xE0, 0x94, 0x03] [0xFE, 0xFE, 0x94, 0xE0, 0x03, 0xFD]
       = ([], [UFreq 440956564])"
  by (simp add: icom_parseResponse_def icom_loop.simps indexOfFrom_def subarray_def
      icom_handleFrame_def controllerAddr_def bcdToFreq_def lo_digit_def hi_digit_def Let_def)

text \<open>
  Claim C8, amended. For every receive buffer and every chunk, the calls of
  \<open>updateState\<close> that the Icom decoder makes are those of the frames its loop cuts, each
  from the first preamble to the first terminator after it, in order; every such frame
  starts with the preamble and ends with the terminator, and one whose destination
  byte is not the controller address \<open>0xE0\<close> makes no call. So when every frame cut
  from the buffer and the chunk is for another address, no call is made and neither
  the state nor any subscriber changes. A complete frame for another address (the
  terminator nowhere before its end) is cut as itself when the receive buffer is empty:
  decoding it then returns no call and an empty buffer, and the world after the
  \<open>data\<close> handler is the world before it.
\<close>

theorem icom_calls_come_from_cut_frames:
  "snd (icom_parseResponse buffer chunk)
      = concat (map icom_handleFrame (icom_frames (buffer @ chunk)))
   \<and> (\<forall>f \<in> set (icom_frames (buffer @ chunk)).
          take 2 f = [0xFE, 0xFE] \<and> last f = 0xFD
          \<and> (f ! 2 \<noteq> controllerAddr \<longrightarrow> icom_handleFrame f = []))
   \<and> ((\<forall>f \<in> set (icom_frames (icomBuffer w @ chunk)). f ! 2 \<noteq> controllerAddr) \<longrightarrow>
          snd (icom_parseResponse (icomBuffer w) chunk) = []
          \<and> state (icom_onData clock chunk w) = state w
          \<and> sseClients (icom_onData clock chunk w) = sseClients w)
   \<and> (to \<noteq> controllerAddr \<and> 0xFD \<notin> set (to # from # body) \<longrightarrow>
          icom_frames ([0xFE, 0xFE, to, from] @ body @ [0xFD]) = [[0xFE, 0xFE, to, from] @ body @ [0xFD]]
          \<and> icom_parseResponse [] ([0xFE, 0xFE, to, from] @ body @ [0xFD]) = ([], [])
          \<and> (icomBuffer w = [] \<longrightarrow> icom_onData clock ([0xFE, 0xFE, to, from] @ body @ [0xFD]) w = w))"
proof (intro conjI ballI impI)
  show calls: "\<And>buffer. snd (icom_parseResponse buffer chunk)
      = concat (map icom_handleFrame (icom_frames (buffer @ chunk)))"
    unfolding icom_parseResponse_def by (subst icom_loop_frames) simp
  fix f
  assume "f \<in> set (icom_frames (buffer @ chunk))"
  then show "take 2 f = [0xFE, 0xFE]" "last f = 0xFD"
    using icom_frames_shape by blast+
next
  fix f
  assume "f ! 2 \<noteq> controllerAddr"
  then show "icom_handleFrame f = []" by (simp add: icom_handleFrame_def)
next
  assume foreign: "\<forall>f \<in> set (icom_frames (icomBuffer w @ chunk)). f ! 2 \<noteq> controllerAddr"
  have "\<forall>f \<in> set (icom_frames (icomBuffer w @ chunk)). icom_handleFrame f = []"
    using foreign by (simp add: icom_handleFrame_def)
  then have "concat (map icom_handleFrame (icom_frames (icomBuffer w @ chunk))) = []" by simp
  moreover have "snd (icom_parseResponse (icomBuffer w) chunk)
      = concat (map icom_handleFrame (icom_frames (icomBuffer w @ chunk)))"
    unfolding icom_parseResponse_def by (subst icom_loop_frames) simp
  ultimately show none: "snd (icom_parseResponse (icomBuffer w) chunk) = []" by simp
  obtain b us where p: "icom_parseResponse (icomBuffer w) chunk = (b, us)" by force
  with none have us: "us = []" by simp
  show "state (icom_onData clock chunk w) = state w"
    by (simp add: icom_onData_def p us)
  show "sseClients (icom_onData clock chunk w) = sseClients w"
    by (simp add: icom_onData_def p us)
next
  assume a: "to \<noteq> controllerAddr \<and> 0xFD \<notin> set (to # from # body)"
  then show "icom_frames ([0xFE, 0xFE, to, from] @ body @ [0xFD])
      = [[0xFE, 0xFE, to, from] @ body @ [0xFD]]"
    using icom_frames_single by blast
  show p: "icom_parseResponse [] ([0xFE, 0xFE, to, from] @ body @ [0xFD]) = ([], [])"
    using a icom_foreign_frame by blast
  assume e: "icomBuffer w = []"
  have "w\<lparr>icomBuffer := []\<rparr> = w" using e by (cases w) simp
  then show "icom_onData clock ([0xFE, 0xFE, to, from] @ body @ [0xFD]) w = w"
    unfolding icom_onData_def e p by simp
qed

theorem icom_calls_come_from_cut_frames_witness:
  "(0x00 :: byte) \<noteq> controllerAddr
   \<and> 0xFD \<notin> set [0x00, 0x94, 0x03, 0x00, 0x40, 0x07, 0x14, 0x00 :: byte]
   \<and> icomBuffer (initialWorld Icom False) = []
   \<and> icom_frames (icomBuffer (initialWorld Icom False)
          @ [0xFE, 0xFE, 0x00, 0x94, 0x03, 0x00, 0x40, 0x07, 0x14, 0x00, 0xFD])
       = [[0xFE, 0xFE, 0x00, 0x94, 0x03, 0x00, 0x40, 0x07, 0x14, 0x00, 0xFD]]
   \<and> [0xFE, 0xFE, 0x00, 0x94, 0x03, 0x00, 0x40, 0x07, 0x14, 0x00, 0xFD] ! 2 \<noteq> controllerAddr
   \<and> icom_handleFrame [0xFE, 0xFE, 0x00, 0x94, 0x03, 0x00, 0x40, 0x07, 0x14, 0x00, 0xFD] = []
   \<and> icom_parseResponse [] [0xFE, 0xFE, 0x00, 0x94, 0x03, 0x00, 0x40, 0x07, 0x14, 0x00, 0xFD] = ([], [])
   \<and> state (icom_onData (\<lambda>k. 1000 + k) [0xFE, 0xFE, 0x00, 0x94, 0x03, 0x00, 0x40, 0x07, 0x14, 0x00, 0xFD]
        (initialWorld Icom False)) = state (initialWorld Icom False)
   \<and> icom_onData (\<lambda>k. 1000 + k) [0xFE, 0xFE, 0x00, 0x94, 0x03, 0x00, 0x40, 0x07, 0x14, 0x00, 0xFD]
        (initialWorld Icom False) = initialWorld Icom False"
proof -
  let ?F = "[0xFE, 0xFE, 0x00, 0x94, 0x03, 0x00, 0x40, 0x07, 0x14, 0x00, 0xFD :: byte]"
  let ?w = "initialWorld Icom False"
  have a: "(0x00 :: byte) \<noteq> controllerAddr" by (simp add: controllerAddr_def)
  have b: "0xFD \<notin> set ((0x00 :: byte) # 0x94 # [0x03, 0x00, 0x40, 0x07, 0x14, 0x00])" by simp
  have c: "icomBuffer ?w = []" by (simp add: initialWorld_def)
  note t = icom_calls_come_from_cut_frames
    [of "icomBuffer ?w" ?F ?w "\<lambda>k. 1000 + k" "0x00" "0x94" "[0x03, 0x00, 0x40, 0x07, 0x14, 0x00]"]
  have fr: "icom_frames ?F = [?F]" using t a b by simp
  have d: "?F ! 2 \<noteq> controllerAddr" using a by simp
  have all: "\<forall>f \<in> set (icom_frames (icomBuffer ?w @ ?F)). f ! 2 \<noteq> controllerAddr"
    unfolding c using fr d by simp
  have h: "icom_handleFrame ?F = []" using t d fr unfolding c by simp
  have st: "state (icom_onData (\<lambda>k. 1000 + k) ?F ?w) = state ?w" using t all by blast
  have p: "icom_parseResponse [] ?F = ([], [])" using t a b by simp
  have e: "icom_onData (\<lambda>k. 1000 + k) ?F ?w = ?w" using t a b c by simp
  show ?thesis using a b c fr d h st p e unfolding c by simp
qed

end
